theory Spec2Isabelle
  imports Main "HOL-Library.AList"
begin

section \<open>JavaScript primitives used by the editor core\<close>

text \<open>
  Numbers of the program (selection bounds, history offsets, timestamps of
  \<^verbatim>\<open>Date.now()\<close>) are integer valued and modelled as \<open>int\<close>; strings are
  lists of characters, one element per code unit, so \<open>length\<close> is
  \<^verbatim>\<open>.length\<close>.

  \<open>js_index xs i\<close> is \<^verbatim>\<open>xs[i]\<close>: \<open>None\<close> stands for \<^verbatim>\<open>undefined\<close>, the value
  of a read outside the array.
\<close>

definition js_index :: "'a list \<Rightarrow> int \<Rightarrow> 'a option" where
  "js_index xs i = (if 0 \<le> i \<and> i < int (length xs) then Some (xs ! nat i) else None)"

text \<open>
  \<^verbatim>\<open>slice\<close> of strings and arrays: a negative index counts from the end,
  every index is clamped to the length, and an empty range gives the empty
  result.
\<close>

definition sliceIndex :: "nat \<Rightarrow> int \<Rightarrow> nat" where
  "sliceIndex len i = (if i < 0 then nat (max (int len + i) 0) else min (nat i) len)"

definition slice :: "'a list \<Rightarrow> int \<Rightarrow> int \<Rightarrow> 'a list" where
  "slice xs a b =
     (let from = sliceIndex (length xs) a; to = sliceIndex (length xs) b
      in take (to - from) (drop from xs))"

definition sliceFrom :: "'a list \<Rightarrow> int \<Rightarrow> 'a list" where
  "sliceFrom xs a = drop (sliceIndex (length xs) a) xs"

text \<open>
  \<^verbatim>\<open>substring\<close>: a negative index is 0, an index beyond the end is the
  length, and the two bounds are swapped when the first is the larger.
\<close>

definition substringIndex :: "nat \<Rightarrow> int \<Rightarrow> nat" where
  "substringIndex len i = (if i < 0 then 0 else min (nat i) len)"

definition substring :: "'a list \<Rightarrow> int \<Rightarrow> int \<Rightarrow> 'a list" where
  "substring s a b =
     (let a' = substringIndex (length s) a; b' = substringIndex (length s) b
      in take (max a' b' - min a' b') (drop (min a' b') s))"

definition substringFrom :: "'a list \<Rightarrow> int \<Rightarrow> 'a list" where
  "substringFrom s a = drop (substringIndex (length s) a) s"

text \<open>
  \<^verbatim>\<open>indexOf\<close> and \<^verbatim>\<open>lastIndexOf\<close> give the position of the first and of
  the last occurrence of the pattern, and \<open>-1\<close> when there is none.
\<close>

fun indexOf :: "'a list \<Rightarrow> 'a list \<Rightarrow> int" where
  "indexOf [] pat = (if pat = [] then 0 else -1)"
| "indexOf (c # s) pat =
     (if take (length pat) (c # s) = pat then 0
      else (let r = indexOf s pat in if r = -1 then -1 else r + 1))"

fun lastIndexOf :: "'a list \<Rightarrow> 'a list \<Rightarrow> int" where
  "lastIndexOf [] pat = (if pat = [] then 0 else -1)"
| "lastIndexOf (c # s) pat =
     (let r = lastIndexOf s pat
      in if r \<noteq> -1 then r + 1
         else if take (length pat) (c # s) = pat then 0 else -1)"

section \<open>Data model (EditorContext)\<close>

definition HISTORY_LIMIT :: nat where
  "HISTORY_LIMIT = 1000"

definition HISTORY_TIME_GAP :: int where
  "HISTORY_TIME_GAP = 200"

datatype SelectionDirection = FORWARD | BACKWARD | NONE

text \<open>
  \<^verbatim>\<open>EditorHistoryRecord\<close> and \<^verbatim>\<open>EditorState\<close> declare the same four fields
  \<^verbatim>\<open>text\<close>, \<^verbatim>\<open>selectionStart\<close>, \<^verbatim>\<open>selectionEnd\<close>, \<^verbatim>\<open>selectionDirection\<close>.
  They are declared once, in a common parent record, so that both keep the
  field names of the source.
\<close>

record EditorSnapshot =
  "text" :: string
  selectionStart :: int
  selectionEnd :: int
  selectionDirection :: SelectionDirection

record EditorHistoryRecord = EditorSnapshot +
  timestamp :: int

record EditorHistory =
  stack :: "EditorHistoryRecord list"
  offset :: int

text \<open>
  \<^verbatim>\<open>plugins?: Record<string, unknown>\<close> is an optional object. Its entries
  are kept in the order in which \<^verbatim>\<open>for (const pluginId in state.plugins)\<close>
  enumerates them; the plugin values are opaque (\<open>'p\<close>).
\<close>

record 'p EditorState = EditorSnapshot +
  editorHasFocus :: bool
  plugins :: "(string \<times> 'p) list option"
  history :: "EditorHistory option"

record KeyDownEvent =
  key :: string
  ctrlKey :: bool
  metaKey :: bool
  shiftKey :: bool
  altKey :: bool

text \<open>
  Of a paste event the program reads only
  \<^verbatim>\<open>clipboardData.getData("text/plain")\<close>; the field holds that string.
\<close>

record PasteEvent =
  clipboardData :: string

text \<open>
  The actions. An optional payload field is an \<open>option\<close>. \<open>OTHER ty\<close> is
  an action object \<^verbatim>\<open>{ type: ty }\<close> whose type is none of the ten the
  reducer knows (see \<open>knownTypes\<close>).
\<close>

datatype EditorAction =
    SET_TEXT string
  | SET_SELECTION int int "SelectionDirection option"
  | SET_FOCUS bool
  | ADD_PREFIX_POSTFIX string string
  | UNDO
  | REDO
  | SET_TEXT_AND_SELECTION string int int "SelectionDirection option"
  | REPLACE_SELECTION string "bool option"
  | KEY_DOWN KeyDownEvent
  | PASTE PasteEvent
  | OTHER string

definition knownTypes :: "string list" where
  "knownTypes =
     [''SET_FOCUS'', ''ADD_PREFIX_POSTFIX'', ''UNDO'', ''REDO'', ''SET_SELECTION'',
      ''SET_TEXT'', ''SET_TEXT_AND_SELECTION'', ''REPLACE_SELECTION'', ''KEY_DOWN'', ''PASTE'']"

text \<open>
  What a reducer returns: \<open>SameState\<close> is \<^verbatim>\<open>return state\<close>, the very object
  it was given; \<open>NewState s\<close> is any other state object. The only exception
  of the reducer is the \<^verbatim>\<open>TypeError\<close> of reading a field of \<^verbatim>\<open>undefined\<close>.
\<close>

datatype error = TypeError

datatype 'p outcome = SameState | NewState "'p EditorState"

definition resolve :: "'p EditorState \<Rightarrow> 'p outcome \<Rightarrow> 'p EditorState" where
  "resolve state r = (case r of SameState \<Rightarrow> state | NewState s \<Rightarrow> s)"

section \<open>recordChange\<close>

text \<open>
  \<^verbatim>\<open>changes: Partial<EditorState>\<close>: the callers pass a subset of the four
  snapshot fields.
\<close>

record Changes =
  changedText :: "string option"
  changedSelectionStart :: "int option"
  changedSelectionEnd :: "int option"
  changedSelectionDirection :: "SelectionDirection option"

definition noChanges :: Changes where
  "noChanges =
     \<lparr>changedText = None, changedSelectionStart = None, changedSelectionEnd = None,
      changedSelectionDirection = None\<rparr>"

text \<open>\<^verbatim>\<open>{ ...state, ...changes }\<close>\<close>

definition merge :: "'p EditorState \<Rightarrow> Changes \<Rightarrow> 'p EditorState" where
  "merge state changes =
     state\<lparr>text := (case changedText changes of Some t \<Rightarrow> t | None \<Rightarrow> text state),
           selectionStart :=
             (case changedSelectionStart changes of Some n \<Rightarrow> n | None \<Rightarrow> selectionStart state),
           selectionEnd :=
             (case changedSelectionEnd changes of Some n \<Rightarrow> n | None \<Rightarrow> selectionEnd state),
           selectionDirection :=
             (case changedSelectionDirection changes of Some d \<Rightarrow> d
              | None \<Rightarrow> selectionDirection state)\<rparr>"

text \<open>The candidate record; \<open>now\<close> is the value of \<^verbatim>\<open>Date.now()\<close>.\<close>

definition newRecord :: "int \<Rightarrow> 'p EditorState \<Rightarrow> Changes \<Rightarrow> EditorHistoryRecord" where
  "newRecord now state changes =
     \<lparr>text = (case changedText changes of Some t \<Rightarrow> t | None \<Rightarrow> text state),
      selectionStart =
        (case changedSelectionStart changes of Some n \<Rightarrow> n | None \<Rightarrow> selectionStart state),
      selectionEnd =
        (case changedSelectionEnd changes of Some n \<Rightarrow> n | None \<Rightarrow> selectionEnd state),
      selectionDirection =
        (case changedSelectionDirection changes of Some d \<Rightarrow> d | None \<Rightarrow> selectionDirection state),
      timestamp = now\<rparr>"

text \<open>"When something updates after an undo, drop the redo operations"\<close>

definition dropRedo :: "EditorHistoryRecord list \<Rightarrow> int \<Rightarrow> EditorHistoryRecord list" where
  "dropRedo stk off =
     (if length stk \<noteq> 0 \<and> off > -1 \<and> off < int (length stk) - 1
      then take (nat (off + 1)) stk else stk)"

text \<open>"Limit the history length"\<close>

definition limitHistory ::
  "EditorHistoryRecord list \<Rightarrow> int \<Rightarrow> EditorHistoryRecord list \<times> int" where
  "limitHistory newStack off =
     (let count = length newStack
      in if count > HISTORY_LIMIT
         then (let extras = count - HISTORY_LIMIT
               in (drop extras newStack, max (off - int extras) 0))
         else (newStack, off))"

text \<open>"Group changes that happen in quick succession"\<close>

definition groupOrPush ::
  "EditorHistoryRecord \<Rightarrow> EditorHistoryRecord list \<Rightarrow> int \<Rightarrow> EditorHistoryRecord list \<times> int"
  where
  "groupOrPush record newStack newOffset =
     (case js_index newStack newOffset of
        Some lastRecord \<Rightarrow>
          if timestamp record - timestamp lastRecord < HISTORY_TIME_GAP
          then (newStack[nat newOffset := record\<lparr>timestamp := timestamp lastRecord\<rparr>], newOffset)
          else (newStack @ [record], newOffset + 1)
      | None \<Rightarrow> (newStack @ [record], newOffset + 1))"

definition recordHistory :: "int \<Rightarrow> 'p EditorState \<Rightarrow> Changes \<Rightarrow> EditorHistory \<Rightarrow> EditorHistory"
  where
  "recordHistory now state changes h =
     (let (newStack, newOffset) = limitHistory (dropRedo (stack h) (offset h)) (offset h);
          (finalStack, finalOffset) = groupOrPush (newRecord now state changes) newStack newOffset
      in \<lparr>stack = finalStack, offset = finalOffset\<rparr>)"

definition recordChange :: "int \<Rightarrow> 'p EditorState \<Rightarrow> Changes \<Rightarrow> 'p EditorState" where
  "recordChange now state changes =
     (case history state of
        None \<Rightarrow> merge state changes
      | Some h \<Rightarrow> (merge state changes)\<lparr>history := Some (recordHistory now state changes h)\<rparr>)"

section \<open>editorReducer\<close>

text \<open>
  The hooks of \<open>state.plugins\<close>: \<open>reducerOf plugin\<close> is \<open>None\<close> when the
  plugin value is no object with a \<^verbatim>\<open>reducer\<close> property, and the hook
  otherwise. A hook returns \<^verbatim>\<open>null\<close> (\<open>None\<close>) or a state: the state it
  was given (\<open>SameState\<close>) or another one. Hooks are taken to be functions
  of their two arguments that return; a hook that throws is not modelled.
\<close>

type_synonym 'p pluginReducer = "'p EditorState \<Rightarrow> EditorAction \<Rightarrow> 'p outcome option"

fun pluginReducers ::
  "('p \<Rightarrow> 'p pluginReducer option) \<Rightarrow> (string \<times> 'p) list \<Rightarrow> 'p EditorState \<Rightarrow> EditorAction
     \<Rightarrow> 'p outcome option" where
  "pluginReducers reducerOf [] state action = None"
| "pluginReducers reducerOf ((pluginId, plugin) # rest) state action =
     (case reducerOf plugin of
        None \<Rightarrow> pluginReducers reducerOf rest state action
      | Some pluginReducer \<Rightarrow>
          (case pluginReducer state action of
             Some result \<Rightarrow> Some result
           | None \<Rightarrow> pluginReducers reducerOf rest state action))"

text \<open>The cases of the \<^verbatim>\<open>switch\<close>.\<close>

definition addPrefixPostfix :: "int \<Rightarrow> 'p EditorState \<Rightarrow> string \<Rightarrow> string \<Rightarrow> 'p outcome" where
  "addPrefixPostfix now state pre post =
     (let textBefore = slice (text state) 0 (selectionStart state);
          selectedText = slice (text state) (selectionStart state) (selectionEnd state);
          textAfter = sliceFrom (text state) (selectionEnd state);
          updatedText = textBefore @ pre @ selectedText @ post @ textAfter;
          newSelectionStart = selectionStart state + int (length pre);
          newSelectionEnd = newSelectionStart + int (length selectedText)
      in if text state = updatedText \<and> selectionStart state = newSelectionStart
            \<and> selectionEnd state = newSelectionEnd
         then SameState
         else NewState (recordChange now state
                (noChanges\<lparr>changedText := Some updatedText,
                            changedSelectionStart := Some newSelectionStart,
                            changedSelectionEnd := Some newSelectionEnd\<rparr>)))"

definition undo :: "'p EditorState \<Rightarrow> error + 'p outcome" where
  "undo state =
     (case history state of
        None \<Rightarrow> Inr SameState
      | Some h \<Rightarrow>
          if offset h \<le> 0 then Inr SameState
          else (case js_index (stack h) (offset h - 1) of
                  None \<Rightarrow> Inl TypeError
                | Some prevRecord \<Rightarrow>
                    Inr (NewState (state\<lparr>text := text prevRecord,
                           selectionStart := selectionStart prevRecord,
                           selectionEnd := selectionEnd prevRecord,
                           selectionDirection := selectionDirection prevRecord,
                           history := Some (h\<lparr>offset := offset h - 1\<rparr>)\<rparr>))))"

definition redo :: "'p EditorState \<Rightarrow> error + 'p outcome" where
  "redo state =
     (case history state of
        None \<Rightarrow> Inr SameState
      | Some h \<Rightarrow>
          if offset h \<ge> int (length (stack h)) - 1 then Inr SameState
          else (case js_index (stack h) (offset h + 1) of
                  None \<Rightarrow> Inl TypeError
                | Some nextRecord \<Rightarrow>
                    Inr (NewState (state\<lparr>text := text nextRecord,
                           selectionStart := selectionStart nextRecord,
                           selectionEnd := selectionEnd nextRecord,
                           selectionDirection := selectionDirection nextRecord,
                           history := Some (h\<lparr>offset := offset h + 1\<rparr>)\<rparr>))))"

definition setSelection ::
  "int \<Rightarrow> 'p EditorState \<Rightarrow> int \<Rightarrow> int \<Rightarrow> SelectionDirection option \<Rightarrow> 'p outcome" where
  "setSelection now state selStart selEnd dir =
     (if selectionStart state = selStart \<and> selectionEnd state = selEnd
         \<and> Some (selectionDirection state) = dir
      then SameState
      else NewState (recordChange now state
             (noChanges\<lparr>changedSelectionStart := Some selStart,
                         changedSelectionEnd := Some selEnd,
                         changedSelectionDirection :=
                           Some (case dir of Some d \<Rightarrow> d | None \<Rightarrow> NONE)\<rparr>)))"

definition setText :: "int \<Rightarrow> 'p EditorState \<Rightarrow> string \<Rightarrow> 'p outcome" where
  "setText now state t =
     (if text state = t then SameState
      else NewState (recordChange now state (noChanges\<lparr>changedText := Some t\<rparr>)))"

definition setTextAndSelection ::
  "int \<Rightarrow> 'p EditorState \<Rightarrow> string \<Rightarrow> int \<Rightarrow> int \<Rightarrow> SelectionDirection option \<Rightarrow> 'p outcome"
  where
  "setTextAndSelection now state t selStart selEnd dir =
     (if text state = t \<and> selectionStart state = selStart \<and> selectionEnd state = selEnd
         \<and> Some (selectionDirection state) = dir
      then SameState
      else NewState (recordChange now state
             \<lparr>changedText = Some t,
              changedSelectionStart = Some selStart,
              changedSelectionEnd = Some selEnd,
              changedSelectionDirection = Some (case dir of Some d \<Rightarrow> d | None \<Rightarrow> NONE)\<rparr>))"

definition replaceSelection :: "int \<Rightarrow> 'p EditorState \<Rightarrow> string \<Rightarrow> bool option \<Rightarrow> 'p outcome"
  where
  "replaceSelection now state newText selected =
     (let textBefore = slice (text state) 0 (selectionStart state);
          textAfter = sliceFrom (text state) (selectionEnd state);
          updatedText = textBefore @ newText @ textAfter
      in if text state = updatedText \<and> selectionStart state = selectionStart state
            \<and> selectionEnd state = selectionEnd state
         then SameState
         else NewState (recordChange now state
                (noChanges\<lparr>changedText := Some updatedText,
                            changedSelectionStart :=
                              Some (if selected = Some True then selectionStart state
                                    else selectionStart state + int (length newText)),
                            changedSelectionEnd :=
                              Some (selectionStart state + int (length newText))\<rparr>)))"

fun builtinCases :: "int \<Rightarrow> 'p EditorState \<Rightarrow> EditorAction \<Rightarrow> error + 'p outcome" where
  "builtinCases now state (SET_FOCUS b) = Inr (NewState (state\<lparr>editorHasFocus := b\<rparr>))"
| "builtinCases now state (ADD_PREFIX_POSTFIX pre post) =
     Inr (addPrefixPostfix now state pre post)"
| "builtinCases now state UNDO = undo state"
| "builtinCases now state REDO = redo state"
| "builtinCases now state (SET_SELECTION selStart selEnd dir) =
     Inr (setSelection now state selStart selEnd dir)"
| "builtinCases now state (SET_TEXT t) = Inr (setText now state t)"
| "builtinCases now state (SET_TEXT_AND_SELECTION t selStart selEnd dir) =
     Inr (setTextAndSelection now state t selStart selEnd dir)"
| "builtinCases now state (REPLACE_SELECTION newText selected) =
     Inr (replaceSelection now state newText selected)"
| "builtinCases now state (KEY_DOWN ev) = Inr SameState"
| "builtinCases now state (PASTE ev) = Inr SameState"
| "builtinCases now state (OTHER ty) = Inr SameState"

text \<open>
  \<open>editorReducer reducerOf now state action\<close>: first the hooks of
  \<open>state.plugins\<close>, then the \<^verbatim>\<open>switch\<close>. \<open>now\<close> is the clock reading of the
  call.
\<close>

definition offerToPlugins ::
  "('p \<Rightarrow> 'p pluginReducer option) \<Rightarrow> 'p EditorState \<Rightarrow> EditorAction \<Rightarrow> 'p outcome option"
  where
  "offerToPlugins reducerOf state action =
     (case plugins state of
        None \<Rightarrow> None
      | Some ps \<Rightarrow> pluginReducers reducerOf ps state action)"

definition editorReducer ::
  "('p \<Rightarrow> 'p pluginReducer option) \<Rightarrow> int \<Rightarrow> 'p EditorState \<Rightarrow> EditorAction \<Rightarrow> error + 'p outcome"
  where
  "editorReducer reducerOf now state action =
     (case offerToPlugins reducerOf state action of
        Some result \<Rightarrow> Inr result
      | None \<Rightarrow> builtinCases now state action)"

text \<open>
  \<^verbatim>\<open>useReducer(editorReducer, initialState)\<close>: a dispatched action replaces
  the state by what the reducer returns. \<open>reduceAll\<close> runs a sequence of
  actions, each with the clock reading of its reducer call.
\<close>

definition reduce ::
  "('p \<Rightarrow> 'p pluginReducer option) \<Rightarrow> int \<Rightarrow> 'p EditorState \<Rightarrow> EditorAction \<Rightarrow> error + 'p EditorState"
  where
  "reduce reducerOf now state action =
     (case editorReducer reducerOf now state action of
        Inl e \<Rightarrow> Inl e
      | Inr r \<Rightarrow> Inr (resolve state r))"

fun reduceAll ::
  "('p \<Rightarrow> 'p pluginReducer option) \<Rightarrow> 'p EditorState \<Rightarrow> (int \<times> EditorAction) list
     \<Rightarrow> error + 'p EditorState" where
  "reduceAll reducerOf state [] = Inr state"
| "reduceAll reducerOf state ((now, action) # rest) =
     (case reduce reducerOf now state action of
        Inl e \<Rightarrow> Inl e
      | Inr s \<Rightarrow> reduceAll reducerOf s rest)"

text \<open>The initial state of \<^verbatim>\<open>EditorComposer\<close>, mounted at time \<open>now\<close>.\<close>

definition initialState :: "string \<Rightarrow> int \<Rightarrow> 'p EditorState" where
  "initialState initialValue now =
     \<lparr>text = initialValue, selectionStart = 0, selectionEnd = 0, selectionDirection = NONE,
      editorHasFocus = False, plugins = Some [],
      history = Some \<lparr>stack = [\<lparr>text = initialValue, selectionStart = 0, selectionEnd = 0,
                                 selectionDirection = NONE, timestamp = now\<rparr>],
                       offset = 0\<rparr>\<rparr>"

text \<open>
  Conditions on states and action sequences that the theorems below use.
  \<open>noReducerHooks\<close>: no entry of \<open>state.plugins\<close> has a reducer hook (as in
  \<open>initialState\<close>, whose \<open>plugins\<close> is empty). \<open>snapshot\<close>: the four fields
  a history record stores. \<open>inSync\<close>: the history is present, its offset
  indexes the stack, and the record there holds the live text and selection.
\<close>

definition noReducerHooks :: "('p \<Rightarrow> 'p pluginReducer option) \<Rightarrow> 'p EditorState \<Rightarrow> bool" where
  "noReducerHooks reducerOf state =
     (case plugins state of
        None \<Rightarrow> True
      | Some ps \<Rightarrow> list_all (\<lambda>(pluginId, plugin). reducerOf plugin = None) ps)"

definition snapshot :: "'a EditorSnapshot_scheme \<Rightarrow> string \<times> int \<times> int \<times> SelectionDirection" where
  "snapshot x = (text x, selectionStart x, selectionEnd x, selectionDirection x)"

definition inSync :: "'p EditorState \<Rightarrow> bool" where
  "inSync state =
     (case history state of
        None \<Rightarrow> False
      | Some h \<Rightarrow>
          (case js_index (stack h) (offset h) of
             None \<Rightarrow> False
           | Some r \<Rightarrow> snapshot r = snapshot state))"

text \<open>The actions whose case calls \<open>recordChange\<close>.\<close>

fun isMutating :: "EditorAction \<Rightarrow> bool" where
  "isMutating (SET_TEXT t) = True"
| "isMutating (SET_SELECTION selStart selEnd dir) = True"
| "isMutating (SET_TEXT_AND_SELECTION t selStart selEnd dir) = True"
| "isMutating (ADD_PREFIX_POSTFIX pre post) = True"
| "isMutating (REPLACE_SELECTION newText selected) = True"
| "isMutating action = False"

text \<open>
  \<open>eachPushes reducerOf state actions\<close>: every action of the sequence is a
  mutating one that is not stopped by its duplicate check, and is reduced at
  least \<open>HISTORY_TIME_GAP\<close> after the timestamp of the record at the offset
  of the state it is applied to, so that it is not grouped with that record.
\<close>

fun eachPushes ::
  "('p \<Rightarrow> 'p pluginReducer option) \<Rightarrow> 'p EditorState \<Rightarrow> (int \<times> EditorAction) list \<Rightarrow> bool" where
  "eachPushes reducerOf state [] = True"
| "eachPushes reducerOf state ((now, action) # rest) =
     (isMutating action
      \<and> editorReducer reducerOf now state action \<noteq> Inr SameState
      \<and> (case history state of
            None \<Rightarrow> False
          | Some h \<Rightarrow>
              (case js_index (stack h) (offset h) of
                 None \<Rightarrow> False
               | Some r \<Rightarrow> HISTORY_TIME_GAP \<le> now - timestamp r))
      \<and> (case reduce reducerOf now state action of
            Inl e \<Rightarrow> False
          | Inr s \<Rightarrow> eachPushes reducerOf s rest))"

section \<open>Plugin registry and event distribution\<close>

text \<open>
  A handler \<^verbatim>\<open>(event, state, dispatch) => boolean\<close> is modelled by what it
  does with its arguments: the actions it passes to \<^verbatim>\<open>dispatch\<close>, in order,
  and the boolean it returns. Handlers are taken to return; a handler that
  throws is not modelled. The call of \<^verbatim>\<open>nativeEvent.preventDefault()\<close> acts
  on the host element only and is left out.
\<close>

type_synonym ('e, 'p) pluginEventHandler = "'e \<Rightarrow> 'p EditorState \<Rightarrow> EditorAction list \<times> bool"

record 'p PluginHandlers =
  keyDown :: "(KeyDownEvent, 'p) pluginEventHandler option"
  paste :: "(PasteEvent, 'p) pluginEventHandler option"


definition unregisterPlugin ::
  "string \<Rightarrow> (string \<times> 'p PluginHandlers) list \<Rightarrow> (string \<times> 'p PluginHandlers) list" where
  "unregisterPlugin pluginId registry = AList.delete pluginId registry"



text \<open>The keyDown handler of \<^verbatim>\<open>BoldPlugin\<close>.\<close>

definition boldKeyDownHandler :: "(KeyDownEvent, 'p) pluginEventHandler" where
  "boldKeyDownHandler event state =
     (if selectionStart state = selectionEnd state then ([], False)
      else if (metaKey event \<or> ctrlKey event) \<and> key event = ''b'' \<and> \<not> altKey event
              \<and> \<not> shiftKey event
      then ([ADD_PREFIX_POSTFIX ''**'' ''**''], True)
      else ([], False))"

text \<open>The keyDown handler of \<^verbatim>\<open>ItalicPlugin\<close>.\<close>

definition italicKeyDownHandler :: "(KeyDownEvent, 'p) pluginEventHandler" where
  "italicKeyDownHandler event state =
     (if selectionStart state = selectionEnd state then ([], False)
      else if (metaKey event \<or> ctrlKey event) \<and> key event = ''i'' \<and> \<not> altKey event
              \<and> \<not> shiftKey event
      then ([ADD_PREFIX_POSTFIX ''_'' ''_''], True)
      else ([], False))"

section \<open>isSelectionInMarkdownLink\<close>

text \<open>
  The backward scan \<^verbatim>\<open>for (let i = openParenIndex - 1; i >= 0; i--)\<close>:
  \<open>scanBack txt n bracketCount\<close> runs it for \<open>i = n - 1, ..., 0\<close> and
  gives \<open>openBracketIndex\<close>.
\<close>

fun scanBack :: "string \<Rightarrow> nat \<Rightarrow> int \<Rightarrow> int" where
  "scanBack txt 0 bracketCount = -1"
| "scanBack txt (Suc i) bracketCount =
     (let counted = (if txt ! i = CHR '']'' then bracketCount + 1 else bracketCount)
      in if txt ! i = CHR ''[''
         then (if counted - 1 = 0 then int i else scanBack txt i (counted - 1))
         else scanBack txt i counted)"

definition isSelectionInMarkdownLink :: "string \<Rightarrow> int \<Rightarrow> int \<Rightarrow> bool" where
  "isSelectionInMarkdownLink txt selStart selEnd =
     (let sliceStart = substring txt 0 selStart;
          openParenIndex = lastIndexOf sliceStart ''](''
      in if openParenIndex \<noteq> -1
         then (let openBracketIndex = scanBack txt (nat openParenIndex) 1
               in if openBracketIndex = -1 then False
                  else (let sliceEnd = substringFrom txt selEnd;
                            closeParenIndex = indexOf sliceEnd '')''
                        in if closeParenIndex \<noteq> -1
                           then (let urlStart = openParenIndex + 2;
                                     urlEnd = int (length txt) - int (length sliceEnd)
                                                + closeParenIndex
                                 in if selStart \<ge> urlStart \<and> selEnd \<le> urlEnd then True
                                    else False)
                           else False))
         else False)"

text \<open>
  The reading of the link check that the tests of \<^verbatim>\<open>isSelectionInMarkdownLink\<close>
  expect (the selection lies in the URL part of one link): the nearest
  \<^verbatim>\<open>](\<close> before the selection start exists, its opening bracket is found by
  the backward scan, the parenthesis that closes this \<^verbatim>\<open>](\<close> (the first
  \<^verbatim>\<open>)\<close> after it) exists at or after the selection end, and the selection lies
  between the two.
\<close>

definition selectionInLinkUrl :: "string \<Rightarrow> int \<Rightarrow> int \<Rightarrow> bool" where
  "selectionInLinkUrl txt selStart selEnd =
     (let openParenIndex = lastIndexOf (substring txt 0 selStart) ''](''
      in openParenIndex \<noteq> -1 \<and> scanBack txt (nat openParenIndex) 1 \<noteq> -1
         \<and> (let urlStart = openParenIndex + 2;
                 closing = indexOf (substringFrom txt urlStart) '')''
             in closing \<noteq> -1 \<and> selEnd \<le> urlStart + closing \<and> urlStart \<le> selStart))"

section \<open>Example inputs\<close>

text \<open>A registry of hooks in which no plugin has a reducer.\<close>

definition noHooks :: "unit \<Rightarrow> unit pluginReducer option" where
  "noHooks plugin = None"

text \<open>
  Plugins numbered \<open>0, 1, 2, ...\<close>: plugin 0 has no \<^verbatim>\<open>reducer\<close> property, the
  hook of plugin 1 returns \<^verbatim>\<open>null\<close>, and the hook of plugin \<open>n \<ge> 2\<close> returns
  the state with its text replaced by \<open>n\<close> letters x.
\<close>

definition exampleReducerOf :: "nat \<Rightarrow> nat pluginReducer option" where
  "exampleReducerOf n =
     (if n = 0 then None
      else Some (\<lambda>state action.
             if n = 1 then None else Some (NewState (state\<lparr>text := replicate n (CHR ''x'')\<rparr>))))"

text \<open>The text \<^verbatim>\<open>abc\<close>, all of it selected, in a freshly mounted editor.\<close>

definition selectedAbc :: "'p EditorState" where
  "selectedAbc = (initialState ''abc'' 0)\<lparr>selectionEnd := 3\<rparr>"

definition pluggedState :: "nat EditorState" where
  "pluggedState =
     selectedAbc\<lparr>plugins := Some [(''a'', 0), (''b'', 1), (''c'', 2), (''d'', 3)]\<rparr>"

text \<open>A history of exactly \<open>HISTORY_LIMIT\<close> records, the offset at the last one.\<close>

definition fullHistoryState :: "unit EditorState" where
  "fullHistoryState =
     \<lparr>text = ''a'', selectionStart = 0, selectionEnd = 0, selectionDirection = NONE,
      editorHasFocus = False, plugins = Some [],
      history =
        Some \<lparr>stack = replicate 1000 \<lparr>text = ''a'', selectionStart = 0, selectionEnd = 0,
                                        selectionDirection = NONE, timestamp = 0\<rparr>,
              offset = 999\<rparr>\<rparr>"

text \<open>A state after two undos: three records, the offset at the first.\<close>

definition undoneState :: "unit EditorState" where
  "undoneState =
     \<lparr>text = '''', selectionStart = 0, selectionEnd = 0, selectionDirection = NONE,
      editorHasFocus = False, plugins = Some [],
      history =
        Some \<lparr>stack = [\<lparr>text = '''', selectionStart = 0, selectionEnd = 0,
                         selectionDirection = NONE, timestamp = 0\<rparr>,
                       \<lparr>text = ''a'', selectionStart = 1, selectionEnd = 1,
                         selectionDirection = NONE, timestamp = 1000\<rparr>,
                       \<lparr>text = ''ab'', selectionStart = 2, selectionEnd = 2,
                         selectionDirection = NONE, timestamp = 2000\<rparr>],
              offset = 0\<rparr>\<rparr>"

text \<open>Ctrl+B.\<close>

definition ctrlB :: KeyDownEvent where
  "ctrlB = \<lparr>key = ''b'', ctrlKey = True, metaKey = False, shiftKey = False, altKey = False\<rparr>"

text \<open>The two texts of the tests of \<^verbatim>\<open>isSelectionInMarkdownLink\<close> used below.\<close>

definition oneLink :: string where
  "oneLink = ''[link](https://example.com)''"

definition twoLinks :: string where
  "twoLinks = ''[link1](https://example1.com) and [link2](https://example2.com)''"

text \<open>A state after one typed character: two records, the offset at the last.\<close>

definition typedState :: "unit EditorState" where
  "typedState =
     \<lparr>text = ''a'', selectionStart = 1, selectionEnd = 1, selectionDirection = NONE,
      editorHasFocus = False, plugins = Some [],
      history =
        Some \<lparr>stack = [\<lparr>text = '''', selectionStart = 0, selectionEnd = 0,
                         selectionDirection = NONE, timestamp = 0\<rparr>,
                       \<lparr>text = ''a'', selectionStart = 1, selectionEnd = 1,
                         selectionDirection = NONE, timestamp = 1000\<rparr>],
              offset = 1\<rparr>\<rparr>"



section \<open>Auxiliary facts\<close>

subsection \<open>The history stack\<close>

text \<open>
  For an offset that indexes the stack, dropping the redo entries and
  limiting the length leave the last \<open>HISTORY_LIMIT\<close> records up to the
  offset, and the record at the offset becomes the last one.
\<close>

lemma dropRedo_valid:
  assumes "0 \<le> off" "off < int (length stk)"
  shows "dropRedo stk off = take (Suc (nat off)) stk"
proof (cases "off < int (length stk) - 1")
  case True
  moreover have "nat (off + 1) = Suc (nat off)" using assms by linarith
  ultimately show ?thesis using assms by (simp add: dropRedo_def)
next
  case False
  with assms have "Suc (nat off) = length stk" by linarith
  then have "take (Suc (nat off)) stk = stk" by simp
  with False show ?thesis by (simp add: dropRedo_def)
qed


lemma limitHistory_valid:
  assumes "0 \<le> off" "off < int (length stk)"
  shows "limitHistory (take (Suc (nat off)) stk) off =
           (drop (Suc (nat off) - HISTORY_LIMIT) (take (Suc (nat off)) stk),
            min off (int HISTORY_LIMIT - 1))"
proof -
  have len: "length (take (Suc (nat off)) stk) = Suc (nat off)" using assms by simp
  show ?thesis
  proof (cases "Suc (nat off) > HISTORY_LIMIT")
    case True
    then have "max (off - int (Suc (nat off) - HISTORY_LIMIT)) 0 = min off (int HISTORY_LIMIT - 1)"
      using assms by (simp add: HISTORY_LIMIT_def) 
    with True len show ?thesis by (simp add: limitHistory_def Let_def)
  next
    case False
    then have "min off (int HISTORY_LIMIT - 1) = off" using assms by (simp add: HISTORY_LIMIT_def)
    with False len show ?thesis by (simp add: limitHistory_def Let_def)
  qed
qed


lemma trimmed_length:
  assumes "0 \<le> off" "off < int (length stk)"
  shows "length (drop (Suc (nat off) - HISTORY_LIMIT) (take (Suc (nat off)) stk)) = nat (min off (int HISTORY_LIMIT - 1)) + 1"
  using assms by (auto simp: HISTORY_LIMIT_def min_def)


lemma trimmed_nth:
  assumes "0 \<le> off" "off < int (length stk)" "k \<le> nat (min off (int HISTORY_LIMIT - 1))"
  shows "drop (Suc (nat off) - HISTORY_LIMIT) (take (Suc (nat off)) stk) ! (nat (min off (int HISTORY_LIMIT - 1)) - k) = stk ! (nat off - k)"
proof -
  let ?e = "Suc (nat off) - HISTORY_LIMIT"
  let ?m = "nat (min off (int HISTORY_LIMIT - 1))"
  have e: "?e + ?m = nat off" using assms by (auto simp: HISTORY_LIMIT_def min_def)
  have "drop ?e (take (Suc (nat off)) stk) ! (?m - k) = take (Suc (nat off)) stk ! (?e + (?m - k))"
    using assms by (intro nth_drop) simp
  also have "?e + (?m - k) = nat off - k" using e assms(3) by linarith
  also have "take (Suc (nat off)) stk ! (nat off - k) = stk ! (nat off - k)" by simp
  finally show ?thesis .
qed


lemma trimmed_index:
  assumes "0 \<le> off" "off < int (length stk)"
  shows "js_index (drop (Suc (nat off) - HISTORY_LIMIT) (take (Suc (nat off)) stk)) (min off (int HISTORY_LIMIT - 1)) = Some (stk ! nat off)"
proof -
  have "0 \<le> min off (int HISTORY_LIMIT - 1)" using assms by (simp add: HISTORY_LIMIT_def)
  moreover have "min off (int HISTORY_LIMIT - 1) < int (length (drop (Suc (nat off) - HISTORY_LIMIT) (take (Suc (nat off)) stk)))"
    using trimmed_length[OF assms] assms by (simp add: HISTORY_LIMIT_def)
  moreover have "drop (Suc (nat off) - HISTORY_LIMIT) (take (Suc (nat off)) stk) ! nat (min off (int HISTORY_LIMIT - 1)) = stk ! nat off"
    using trimmed_nth[OF assms, of 0] by simp
  ultimately show ?thesis by (simp add: js_index_def)
qed


lemma trimmed_le:
  assumes "0 \<le> off" "off < int (length stk)"
  shows "length (drop (Suc (nat off) - HISTORY_LIMIT) (take (Suc (nat off)) stk)) \<le> length stk"
  using assms by simp


lemma js_index_snoc: "js_index (xs @ [x]) (int (length xs)) = Some x"
  by (simp add: js_index_def)


lemma js_index_valid:
  "0 \<le> i \<Longrightarrow> i < int (length xs) \<Longrightarrow> js_index xs i = Some (xs ! nat i)"
  by (simp add: js_index_def)


lemma nth_snoc_left: "i < length xs \<Longrightarrow> (xs @ [x]) ! i = xs ! i"
  by (simp add: nth_append)


lemma recordHistory_push:
  assumes "0 \<le> offset h" "offset h < int (length (stack h))"
    and "HISTORY_TIME_GAP \<le> now - timestamp (stack h ! nat (offset h))"
  shows "recordHistory now state changes h =
           \<lparr>stack = drop (Suc (nat (offset h)) - HISTORY_LIMIT) (take (Suc (nat (offset h))) (stack h))
                      @ [newRecord now state changes],
            offset = min (offset h) (int HISTORY_LIMIT - 1) + 1\<rparr>"
  using assms
  by (simp add: recordHistory_def dropRedo_valid limitHistory_valid groupOrPush_def trimmed_index
      newRecord_def)


lemma recordHistory_group:
  assumes "0 \<le> offset h" "offset h < int (length (stack h))"
    and "now - timestamp (stack h ! nat (offset h)) < HISTORY_TIME_GAP"
  shows "recordHistory now state changes h =
           \<lparr>stack = (drop (Suc (nat (offset h)) - HISTORY_LIMIT) (take (Suc (nat (offset h))) (stack h)))
                      [nat (min (offset h) (int HISTORY_LIMIT - 1)) :=
                         (newRecord now state changes)\<lparr>timestamp := timestamp (stack h ! nat (offset h))\<rparr>],
            offset = min (offset h) (int HISTORY_LIMIT - 1)\<rparr>"
  using assms
  by (simp add: recordHistory_def dropRedo_valid limitHistory_valid groupOrPush_def trimmed_index
      newRecord_def)


lemma group_last:
  assumes len: "0 < length T" "length T \<le> HISTORY_LIMIT"
    and gap: "now - timestamp r1 < HISTORY_TIME_GAP"
  shows "recordHistory now s c \<lparr>stack = T @ [r1], offset = int (length T)\<rparr> =
           \<lparr>stack = drop (Suc (length T) - HISTORY_LIMIT) T
                      @ [(newRecord now s c)\<lparr>timestamp := timestamp r1\<rparr>],
            offset = int (length T - (Suc (length T) - HISTORY_LIMIT))\<rparr>"
proof -
  let ?h = "\<lparr>stack = T @ [r1], offset = int (length T)\<rparr>"
  let ?r = "(newRecord now s c)\<lparr>timestamp := timestamp r1\<rparr>"
  let ?e = "Suc (length T) - HISTORY_LIMIT"
  have o1: "0 \<le> offset ?h" by simp
  have o2: "offset ?h < int (length (stack ?h))" by simp
  have last: "stack ?h ! nat (offset ?h) = r1" by simp
  have g: "now - timestamp (stack ?h ! nat (offset ?h)) < HISTORY_TIME_GAP"
    unfolding last by (rule gap)
  have e: "?e \<le> length T" using len by linarith
  have m: "nat (min (int (length T)) (int HISTORY_LIMIT - 1)) = length T - ?e"
    using len by (auto simp: min_def HISTORY_LIMIT_def)
  have m': "min (int (length T)) (int HISTORY_LIMIT - 1) = int (length T - ?e)"
    using len by (auto simp: min_def HISTORY_LIMIT_def)
  have d: "drop ?e (T @ [r1]) = drop ?e T @ [r1]" using e by simp
  have u: "(drop ?e T @ [r1])[length T - ?e := ?r] = drop ?e T @ [?r]"
  proof -
    have "length T - ?e = length (drop ?e T)" by simp
    then show ?thesis by (metis list_update_length)
  qed
  have "recordHistory now s c ?h =
          \<lparr>stack = (drop (Suc (nat (offset ?h)) - HISTORY_LIMIT)
                      (take (Suc (nat (offset ?h))) (stack ?h)))
                     [nat (min (offset ?h) (int HISTORY_LIMIT - 1)) :=
                        (newRecord now s c)\<lparr>timestamp := timestamp (stack ?h ! nat (offset ?h))\<rparr>],
           offset = min (offset ?h) (int HISTORY_LIMIT - 1)\<rparr>"
    by (rule recordHistory_group[OF o1 o2 g])
  also have "\<dots> = \<lparr>stack = (drop ?e (T @ [r1]))[nat (min (int (length T)) (int HISTORY_LIMIT - 1)) := ?r],
                   offset = min (int (length T)) (int HISTORY_LIMIT - 1)\<rparr>"
    by simp
  also have "\<dots> = \<lparr>stack = drop ?e T @ [?r], offset = int (length T - ?e)\<rparr>"
    by (simp only: m' d nat_int u)
  finally show ?thesis .
qed


lemma limitHistory_length: "length (fst (limitHistory xs off)) \<le> HISTORY_LIMIT"
  by (simp add: limitHistory_def Let_def)


lemma groupOrPush_length: "length (fst (groupOrPush r xs off)) \<le> Suc (length xs)"
  by (simp add: groupOrPush_def split: option.split)


lemma recordHistory_length: "length (stack (recordHistory now s c h)) \<le> Suc HISTORY_LIMIT"
proof -
  obtain xs off where l: "limitHistory (dropRedo (stack h) (offset h)) (offset h) = (xs, off)"
    by (cases "limitHistory (dropRedo (stack h) (offset h)) (offset h)")
  obtain ys off' where g: "groupOrPush (newRecord now s c) xs off = (ys, off')"
    by (cases "groupOrPush (newRecord now s c) xs off")
  have "length xs \<le> HISTORY_LIMIT"
    using limitHistory_length[of "dropRedo (stack h) (offset h)" "offset h"] l by simp
  moreover have "length ys \<le> Suc (length xs)"
    using groupOrPush_length[of "newRecord now s c" xs off] g by simp
  ultimately show ?thesis by (simp add: recordHistory_def l g)
qed


subsection \<open>Fields of the recorded state\<close>

lemma snapshot_merge [simp]:
  "text (merge state changes) = (case changedText changes of Some t \<Rightarrow> t | None \<Rightarrow> text state)"
  "selectionStart (merge state changes) =
     (case changedSelectionStart changes of Some n \<Rightarrow> n | None \<Rightarrow> selectionStart state)"
  "selectionEnd (merge state changes) =
     (case changedSelectionEnd changes of Some n \<Rightarrow> n | None \<Rightarrow> selectionEnd state)"
  "selectionDirection (merge state changes) =
     (case changedSelectionDirection changes of Some d \<Rightarrow> d | None \<Rightarrow> selectionDirection state)"
  "editorHasFocus (merge state changes) = editorHasFocus state"
  "plugins (merge state changes) = plugins state"
  "history (merge state changes) = history state"
  by (simp_all add: merge_def)


lemma snapshot_recordChange:
  "text (recordChange now state changes) = text (merge state changes)"
  "selectionStart (recordChange now state changes) = selectionStart (merge state changes)"
  "selectionEnd (recordChange now state changes) = selectionEnd (merge state changes)"
  "selectionDirection (recordChange now state changes) = selectionDirection (merge state changes)"
  "editorHasFocus (recordChange now state changes) = editorHasFocus state"
  "plugins (recordChange now state changes) = plugins state"
  by (simp_all add: recordChange_def split: option.split)


lemma history_recordChange:
  "history (recordChange now state changes) =
     (case history state of None \<Rightarrow> None | Some h \<Rightarrow> Some (recordHistory now state changes h))"
  by (simp add: recordChange_def split: option.split)


lemma snapshot_newRecord: "snapshot (newRecord now state changes) = snapshot (merge state changes)"
  by (simp add: snapshot_def newRecord_def)


lemma snapshot_recordChange': "snapshot (recordChange now state changes) = snapshot (merge state changes)"
  by (simp add: snapshot_def snapshot_recordChange)


lemma newRecord_text_only:
  "newRecord now s (noChanges\<lparr>changedText := Some t\<rparr>) =
     \<lparr>text = t, selectionStart = selectionStart s, selectionEnd = selectionEnd s,
      selectionDirection = selectionDirection s, timestamp = now\<rparr>"
  by (simp add: newRecord_def noChanges_def)


lemmas record_defs = recordChange_def recordHistory_def dropRedo_def limitHistory_def
  groupOrPush_def js_index_def newRecord_def merge_def noChanges_def HISTORY_LIMIT_def
  HISTORY_TIME_GAP_def Let_def


subsection \<open>Reducer hooks\<close>

lemma editorReducer_builtin:
  "offerToPlugins reducerOf state action = None \<Longrightarrow>
     editorReducer reducerOf now state action = builtinCases now state action"
  by (simp add: editorReducer_def)


lemma pluginReducers_decline:
  assumes "list_all (\<lambda>(i, p). case reducerOf p of None \<Rightarrow> True | Some hook \<Rightarrow> hook state action = None) before"
  shows "pluginReducers reducerOf (before @ rest) state action = pluginReducers reducerOf rest state action"
  using assms by (induction before) (auto split: option.splits)


lemma noReducerHooks_offer:
  "noReducerHooks reducerOf state \<Longrightarrow> offerToPlugins reducerOf state action = None"
proof -
  have "list_all (\<lambda>(i, p). reducerOf p = None) ps \<Longrightarrow> pluginReducers reducerOf ps state action = None" for ps
    by (induction ps) auto
  then show "noReducerHooks reducerOf state \<Longrightarrow> offerToPlugins reducerOf state action = None"
    by (auto simp: noReducerHooks_def offerToPlugins_def split: option.splits)
qed


lemma noHooks_offer: "offerToPlugins noHooks state action = None"
proof -
  have "pluginReducers noHooks ps state action = None" for ps
    by (induction ps) (auto simp: noHooks_def)
  then show ?thesis by (simp add: offerToPlugins_def split: option.split)
qed


lemma noHooks_noReducerHooks: "noReducerHooks noHooks state"
  by (auto simp: noReducerHooks_def noHooks_def list_all_iff split: option.split)


lemma mutating_cases:
  assumes "isMutating action"
  shows "\<exists>changes. builtinCases now state action = Inr SameState
           \<or> builtinCases now state action = Inr (NewState (recordChange now state changes))"
  using assms
  by (cases action)
     (auto simp: setText_def setSelection_def setTextAndSelection_def addPrefixPostfix_def
        replaceSelection_def Let_def)


subsection \<open>Event distribution\<close>





subsection \<open>Slices\<close>

lemma length_slice_prefix:
  assumes "0 \<le> a" "a \<le> int (length txt)"
  shows "length (slice txt 0 a) = nat a"
  using assms by (simp add: slice_def sliceIndex_def)


lemma slice_middle:
  assumes "0 \<le> a" "length before = nat a"
  shows "slice (before @ pre @ sel @ rest) (a + int (length pre))
           (a + int (length pre) + int (length sel)) = sel"
proof -
  let ?l = "before @ pre @ sel @ rest"
  have ifrom: "sliceIndex (length ?l) (a + int (length pre)) = length before + length pre"
    using assms by (simp add: sliceIndex_def nat_add_distrib)
  have ito: "sliceIndex (length ?l) (a + int (length pre) + int (length sel))
              = length before + length pre + length sel"
    using assms by (simp add: sliceIndex_def nat_add_distrib)
  have "drop (length before + length pre) ?l = sel @ rest"
    by (simp add: drop_append)
  then show ?thesis
    unfolding slice_def Let_def ifrom ito by simp
qed


subsection \<open>String search\<close>

lemma lastIndexOf_bounds:
  "lastIndexOf xs pat \<noteq> -1 \<Longrightarrow>
     0 \<le> lastIndexOf xs pat \<and> lastIndexOf xs pat + int (length pat) \<le> int (length xs)"
proof (induction xs)
  case Nil
  then show ?case by (simp split: if_splits)
next
  case (Cons c s)
  show ?case
  proof (cases "lastIndexOf s pat = -1")
    case True
    with Cons.prems have t: "take (length pat) (c # s) = pat"
      by (simp add: Let_def split: if_splits)
    then have "length (take (length pat) (c # s)) = length pat" by (rule arg_cong)
    then have "length pat \<le> length (c # s)"
      unfolding length_take by (simp add: min_def split: if_splits)
    with True t show ?thesis by (simp add: Let_def)
  next
    case False
    with Cons.IH show ?thesis by (simp add: Let_def)
  qed
qed


lemma indexOf_bounds: "indexOf xs pat = -1 \<or> 0 \<le> indexOf xs pat"
  by (induction xs) (auto simp: Let_def)


lemma indexOf_empty: "pat \<noteq> [] \<Longrightarrow> indexOf [] pat = -1"
  by simp


subsection \<open>Sequences of actions\<close>

text \<open>
  One pushed record (\<open>push_step\<close>), a run of pushed records
  (\<open>run_pushes\<close>: the record the run started from stays in the stack, as
  many places below the offset as records were pushed), a run of undos
  (\<open>undo_run\<close>), and two text changes in quick succession.
\<close>

lemma push_step:
  assumes hooks: "noReducerHooks reducerOf state"
    and mut: "isMutating action"
    and eff: "editorReducer reducerOf now state action \<noteq> Inr SameState"
    and h: "history state = Some h"
    and off: "0 \<le> offset h" "offset h < int (length (stack h))"
    and gap: "HISTORY_TIME_GAP \<le> now - timestamp (stack h ! nat (offset h))"
  shows "\<exists>s' r. reduce reducerOf now state action = Inr s'
           \<and> noReducerHooks reducerOf s' \<and> inSync s'
           \<and> history s' =
               Some \<lparr>stack = drop (Suc (nat (offset h)) - HISTORY_LIMIT)
                               (take (Suc (nat (offset h))) (stack h)) @ [r],
                     offset = min (offset h) (int HISTORY_LIMIT - 1) + 1\<rparr>"
proof -
  have b: "editorReducer reducerOf now state action = builtinCases now state action"
    using hooks by (simp add: editorReducer_builtin noReducerHooks_offer)
  from mutating_cases[OF mut, of now state] eff b
  obtain changes where c: "builtinCases now state action = Inr (NewState (recordChange now state changes))"
    by auto
  let ?s = "recordChange now state changes"
  let ?T = "drop (Suc (nat (offset h)) - HISTORY_LIMIT) (take (Suc (nat (offset h))) (stack h))"
  have red: "reduce reducerOf now state action = Inr ?s"
    by (simp add: reduce_def b c resolve_def)
  have hist: "history ?s = Some \<lparr>stack = ?T @ [newRecord now state changes],
                                 offset = min (offset h) (int HISTORY_LIMIT - 1) + 1\<rparr>"
    using h recordHistory_push[OF off gap] by (simp add: history_recordChange)
  have len: "length ?T = nat (min (offset h) (int HISTORY_LIMIT - 1)) + 1"
    by (rule trimmed_length[OF off])
  have m0: "0 \<le> min (offset h) (int HISTORY_LIMIT - 1)"
    using off by (simp add: HISTORY_LIMIT_def)
  have idx: "js_index (?T @ [newRecord now state changes]) (min (offset h) (int HISTORY_LIMIT - 1) + 1)
               = Some (newRecord now state changes)"
  proof -
    have eq: "min (offset h) (int HISTORY_LIMIT - 1) + 1 = int (length ?T)"
      unfolding len using m0 by simp
    show ?thesis unfolding eq by (rule js_index_snoc)
  qed
  have sync: "inSync ?s"
    by (simp add: inSync_def hist idx snapshot_newRecord snapshot_recordChange')
  have "noReducerHooks reducerOf ?s"
    using hooks by (simp add: noReducerHooks_def snapshot_recordChange)
  with red sync hist show ?thesis by blast
qed


lemma inSync_valid:
  assumes "inSync s"
  obtains h where "history s = Some h" "0 \<le> offset h" "offset h < int (length (stack h))"
    "snapshot (stack h ! nat (offset h)) = snapshot s"
  using assms
  by (auto simp: inSync_def js_index_def split: option.splits if_splits)


lemma run_pushes:
  assumes "noReducerHooks r s" "inSync s" "eachPushes r s acts" "history s = Some h"
    and "int k \<le> offset h" "k + length acts \<le> HISTORY_LIMIT"
  shows "\<exists>s' h'. reduceAll r s acts = Inr s' \<and> noReducerHooks r s' \<and> inSync s'
           \<and> history s' = Some h' \<and> int (k + length acts) \<le> offset h'
           \<and> stack h' ! nat (offset h' - int (k + length acts)) = stack h ! nat (offset h - int k)"
  using assms
proof (induction acts arbitrary: s h k)
  case Nil
  then show ?case by simp
next
  case (Cons a rest)
  obtain now action where a: "a = (now, action)" by (cases a)
  from Cons.prems(2) Cons.prems(4)
  have off: "0 \<le> offset h" "offset h < int (length (stack h))"
    by (auto elim!: inSync_valid)
  have idx: "js_index (stack h) (offset h) = Some (stack h ! nat (offset h))"
    using off by (rule js_index_valid)
  from Cons.prems(3)
  have mut: "isMutating action"
    and eff: "editorReducer r now s action \<noteq> Inr SameState"
    and gap: "HISTORY_TIME_GAP \<le> now - timestamp (stack h ! nat (offset h))"
    and rest: "case reduce r now s action of Inl e \<Rightarrow> False | Inr s1 \<Rightarrow> eachPushes r s1 rest"
    unfolding a by (simp_all add: Cons.prems(4) idx)
  let ?T = "drop (Suc (nat (offset h)) - HISTORY_LIMIT) (take (Suc (nat (offset h))) (stack h))"
  let ?m = "min (offset h) (int HISTORY_LIMIT - 1)"
  from push_step[OF Cons.prems(1) mut eff Cons.prems(4) off gap]
  obtain s1 rc where red: "reduce r now s action = Inr s1"
    and hooks1: "noReducerHooks r s1" and sync1: "inSync s1"
    and hist1: "history s1 = Some \<lparr>stack = ?T @ [rc], offset = ?m + 1\<rparr>"
    by blast
  let ?h1 = "\<lparr>stack = ?T @ [rc], offset = ?m + 1\<rparr>"
  have push1: "eachPushes r s1 rest" using rest red by simp
  have k999: "int k \<le> int HISTORY_LIMIT - 1" using Cons.prems(6) by simp
  have km: "int k \<le> ?m" using Cons.prems(5) k999 by simp
  have k1: "int (Suc k) \<le> offset ?h1" using km by simp
  have k2: "Suc k + length rest \<le> HISTORY_LIMIT" using Cons.prems(6) by simp
  from Cons.IH[OF hooks1 sync1 push1 hist1 k1 k2]
  obtain s' h' where run: "reduceAll r s1 rest = Inr s'" and hooks': "noReducerHooks r s'"
    and sync': "inSync s'" and hist': "history s' = Some h'"
    and le': "int (Suc k + length rest) \<le> offset h'"
    and nth': "stack h' ! nat (offset h' - int (Suc k + length rest))
                 = stack ?h1 ! nat (offset ?h1 - int (Suc k))"
    by blast
  have lenT: "length ?T = nat ?m + 1" by (rule trimmed_length[OF off])
  have knat: "k \<le> nat ?m" using km by linarith
  have "stack ?h1 ! nat (offset ?h1 - int (Suc k)) = (?T @ [rc]) ! (nat ?m - k)"
    using km by (simp add: nat_diff_distrib')
  also have "\<dots> = ?T ! (nat ?m - k)"
  proof (rule nth_snoc_left)
    show "nat ?m - k < length ?T" unfolding lenT by linarith
  qed
  also have "\<dots> = stack h ! (nat (offset h) - k)"
    by (rule trimmed_nth[OF off knat])
  also have "nat (offset h) - k = nat (offset h - int k)"
    using Cons.prems(5) by (simp add: nat_diff_distrib')
  finally have nth1: "stack ?h1 ! nat (offset ?h1 - int (Suc k)) = stack h ! nat (offset h - int k)" .
  have "reduceAll r s (a # rest) = Inr s'" unfolding a using red run by simp
  moreover have "int (k + length (a # rest)) \<le> offset h'" using le' by simp
  moreover have "stack h' ! nat (offset h' - int (k + length (a # rest)))
                   = stack h ! nat (offset h - int k)"
    using nth' nth1 by simp
  ultimately show ?case using hooks' sync' hist' by blast
qed


lemma undo_step:
  assumes "noReducerHooks r s" "inSync s" "history s = Some h" "0 < offset h"
  shows "\<exists>s1. reduce r now s UNDO = Inr s1 \<and> noReducerHooks r s1 \<and> inSync s1
           \<and> history s1 = Some (h\<lparr>offset := offset h - 1\<rparr>)
           \<and> editorHasFocus s1 = editorHasFocus s \<and> plugins s1 = plugins s"
proof -
  from assms(2,3) have off: "offset h < int (length (stack h))"
    by (auto elim!: inSync_valid)
  have idx: "js_index (stack h) (offset h - 1) = Some (stack h ! nat (offset h - 1))"
    using assms(4) off by (simp add: js_index_def)
  let ?p = "stack h ! nat (offset h - 1)"
  let ?s1 = "s\<lparr>text := text ?p, selectionStart := selectionStart ?p,
               selectionEnd := selectionEnd ?p, selectionDirection := selectionDirection ?p,
               history := Some (h\<lparr>offset := offset h - 1\<rparr>)\<rparr>"
  have "editorReducer r now s UNDO = undo s"
    using assms(1) by (simp add: editorReducer_builtin noReducerHooks_offer)
  also have "undo s = Inr (NewState ?s1)"
    using assms(3,4) idx by (simp add: undo_def)
  finally have red: "reduce r now s UNDO = Inr ?s1"
    by (simp add: reduce_def resolve_def)
  have "inSync ?s1" by (simp add: inSync_def idx snapshot_def)
  moreover have "noReducerHooks r ?s1" using assms(1) by (simp add: noReducerHooks_def)
  ultimately show ?thesis using red by simp
qed


lemma undo_run:
  assumes "noReducerHooks r s" "inSync s" "history s = Some h" "int (length ts) \<le> offset h"
  shows "\<exists>s'. reduceAll r s (map (\<lambda>t. (t, UNDO)) ts) = Inr s' \<and> inSync s'
           \<and> history s' = Some (h\<lparr>offset := offset h - int (length ts)\<rparr>)"
  using assms
proof (induction ts arbitrary: s h)
  case Nil
  then show ?case by simp
next
  case (Cons t ts)
  have pos: "0 < offset h" using Cons.prems(4) by simp
  from undo_step[OF Cons.prems(1,2,3) pos, of t]
  obtain s1 where red: "reduce r t s UNDO = Inr s1" and hooks1: "noReducerHooks r s1"
    and sync1: "inSync s1" and hist1: "history s1 = Some (h\<lparr>offset := offset h - 1\<rparr>)"
    by blast
  have le: "int (length ts) \<le> offset (h\<lparr>offset := offset h - 1\<rparr>)"
    using Cons.prems(4) by simp
  from Cons.IH[OF hooks1 sync1 hist1 le]
  obtain s' where run: "reduceAll r s1 (map (\<lambda>t. (t, UNDO)) ts) = Inr s'" and sync': "inSync s'"
    and hist': "history s' = Some (h\<lparr>offset := offset h - 1, offset := offset h - 1 - int (length ts)\<rparr>)"
    by auto
  have "reduceAll r s (map (\<lambda>t. (t, UNDO)) (t # ts)) = Inr s'" using red run by simp
  moreover have "history s' = Some (h\<lparr>offset := offset h - int (length (t # ts))\<rparr>)"
    using hist' by (simp add: algebra_simps)
  ultimately show ?case using sync' by blast
qed


lemma undo_then_redo:
  assumes "noReducerHooks r s" "inSync s" "history s = Some h" "0 < offset h"
  shows "\<exists>s1. reduce r t1 s UNDO = Inr s1 \<and> reduce r t2 s1 REDO = Inr s"
proof -
  from assms(2,3) have off: "0 \<le> offset h" "offset h < int (length (stack h))"
    and snap: "snapshot (stack h ! nat (offset h)) = snapshot s"
    by (auto elim!: inSync_valid)
  from undo_step[OF assms, of t1]
  obtain s1 where red: "reduce r t1 s UNDO = Inr s1" and hooks1: "noReducerHooks r s1"
    and hist1: "history s1 = Some (h\<lparr>offset := offset h - 1\<rparr>)"
    and same: "editorHasFocus s1 = editorHasFocus s" "plugins s1 = plugins s"
    by blast
  let ?n = "stack h ! nat (offset h)"
  have idx: "js_index (stack h) (offset h - 1 + 1) = Some ?n"
    using off by (simp add: js_index_def)
  have "editorReducer r t2 s1 REDO = redo s1"
    using hooks1 by (simp add: editorReducer_builtin noReducerHooks_offer)
  also have "redo s1 = Inr (NewState (s1\<lparr>text := text ?n, selectionStart := selectionStart ?n,
               selectionEnd := selectionEnd ?n, selectionDirection := selectionDirection ?n,
               history := Some (h\<lparr>offset := offset h\<rparr>)\<rparr>))"
    using hist1 off idx by (simp add: redo_def)
  also have "s1\<lparr>text := text ?n, selectionStart := selectionStart ?n,
               selectionEnd := selectionEnd ?n, selectionDirection := selectionDirection ?n,
               history := Some (h\<lparr>offset := offset h\<rparr>)\<rparr> = s"
    using snap same assms(3) by (simp add: snapshot_def EditorState.equality)
  finally have "reduce r t2 s1 REDO = Inr s" by (simp add: reduce_def resolve_def)
  with red show ?thesis by blast
qed


lemma second_set_text:
  assumes hist1: "history s1 = Some \<lparr>stack = T @ [r1], offset = int (length T)\<rparr>"
    and Tpos: "0 < length T" and Tle: "length T \<le> HISTORY_LIMIT"
    and hooks1: "noReducerHooks reducerOf s1"
    and g: "now2 - timestamp r1 < HISTORY_TIME_GAP"
    and r1: "snapshot r1 = snapshot s1"
  shows "\<exists>s2 h2 d. reduce reducerOf now2 s1 (SET_TEXT t2) = Inr s2 \<and> history s2 = Some h2
           \<and> stack h2 =
               drop d T @ [\<lparr>text = t2, selectionStart = selectionStart s1,
                             selectionEnd = selectionEnd s1,
                             selectionDirection = selectionDirection s1,
                             timestamp = timestamp r1\<rparr>]
           \<and> offset h2 = int (length (stack h2)) - 1
           \<and> length (stack h2) \<le> Suc (length T)
           \<and> text s2 = t2"
proof (cases "t2 = text s1")
  case True
  let ?r2 = "\<lparr>text = t2, selectionStart = selectionStart s1, selectionEnd = selectionEnd s1,
              selectionDirection = selectionDirection s1, timestamp = timestamp r1\<rparr>"
  let ?h1 = "\<lparr>stack = T @ [r1], offset = int (length T)\<rparr>"
  have "reduce reducerOf now2 s1 (SET_TEXT t2) = Inr s1"
    using hooks1 True
    by (simp add: reduce_def editorReducer_builtin noReducerHooks_offer setText_def resolve_def)
  moreover have "r1 = ?r2" using True r1 by (cases r1) (simp add: snapshot_def)
  then have "stack ?h1 = drop 0 T @ [?r2]" by simp
  moreover have "offset ?h1 = int (length (stack ?h1)) - 1" by simp
  moreover have "length (stack ?h1) \<le> Suc (length T)" by simp
  moreover have "text s1 = t2" using True by simp
  ultimately show ?thesis using hist1 by blast
next
  case False
  let ?c2 = "noChanges\<lparr>changedText := Some t2\<rparr>"
  let ?s2 = "recordChange now2 s1 ?c2"
  let ?e = "Suc (length T) - HISTORY_LIMIT"
  let ?r2 = "\<lparr>text = t2, selectionStart = selectionStart s1, selectionEnd = selectionEnd s1,
              selectionDirection = selectionDirection s1, timestamp = timestamp r1\<rparr>"
  let ?h2 = "\<lparr>stack = drop ?e T @ [?r2], offset = int (length T - ?e)\<rparr>"
  have red2: "reduce reducerOf now2 s1 (SET_TEXT t2) = Inr ?s2"
    using hooks1 False
    by (simp add: reduce_def editorReducer_builtin noReducerHooks_offer setText_def resolve_def)
  have rec2: "(newRecord now2 s1 ?c2)\<lparr>timestamp := timestamp r1\<rparr> = ?r2"
    by (simp add: newRecord_text_only)
  have "recordHistory now2 s1 ?c2 \<lparr>stack = T @ [r1], offset = int (length T)\<rparr> =
          \<lparr>stack = drop ?e T @ [(newRecord now2 s1 ?c2)\<lparr>timestamp := timestamp r1\<rparr>],
           offset = int (length T - ?e)\<rparr>"
    by (rule group_last[OF Tpos Tle g])
  then have hist2: "history ?s2 = Some ?h2"
    using hist1 unfolding rec2 by (simp add: history_recordChange)
  have "stack ?h2 = drop ?e T @ [?r2]" by simp
  moreover have "offset ?h2 = int (length (stack ?h2)) - 1" by simp
  moreover have "length (stack ?h2) \<le> Suc (length T)" by simp
  moreover have "text ?s2 = t2" by (simp add: snapshot_recordChange noChanges_def)
  ultimately show ?thesis using red2 hist2 by blast
qed


lemma two_set_text:
  assumes h: "history state = Some h"
    and off: "0 \<le> offset h" "offset h < int (length (stack h))"
    and hooks: "noReducerHooks reducerOf state"
    and diff: "t1 \<noteq> text state"
    and gap1: "HISTORY_TIME_GAP \<le> now1 - timestamp (stack h ! nat (offset h))"
    and gap2: "now2 - now1 < HISTORY_TIME_GAP"
  shows "\<exists>s1 s2 h1 h2 d.
           reduce reducerOf now1 state (SET_TEXT t1) = Inr s1 \<and> history s1 = Some h1
           \<and> stack h1 =
               drop (Suc (nat (offset h)) - HISTORY_LIMIT) (take (Suc (nat (offset h))) (stack h))
                 @ [\<lparr>text = t1, selectionStart = selectionStart state,
                      selectionEnd = selectionEnd state,
                      selectionDirection = selectionDirection state, timestamp = now1\<rparr>]
           \<and> reduce reducerOf now2 s1 (SET_TEXT t2) = Inr s2 \<and> history s2 = Some h2
           \<and> stack h2 =
               drop d (drop (Suc (nat (offset h)) - HISTORY_LIMIT)
                         (take (Suc (nat (offset h))) (stack h)))
                 @ [\<lparr>text = t2, selectionStart = selectionStart state,
                      selectionEnd = selectionEnd state,
                      selectionDirection = selectionDirection state, timestamp = now1\<rparr>]
           \<and> offset h2 = int (length (stack h2)) - 1
           \<and> length (stack h2) \<le> length (stack h1)
           \<and> text s2 = t2"
proof -
  let ?T = "drop (Suc (nat (offset h)) - HISTORY_LIMIT) (take (Suc (nat (offset h))) (stack h))"
  let ?m = "min (offset h) (int HISTORY_LIMIT - 1)"
  let ?c1 = "noChanges\<lparr>changedText := Some t1\<rparr>"
  let ?s1 = "recordChange now1 state ?c1"
  let ?r1 = "\<lparr>text = t1, selectionStart = selectionStart state,
              selectionEnd = selectionEnd state,
              selectionDirection = selectionDirection state, timestamp = now1\<rparr>"
  let ?h1 = "\<lparr>stack = ?T @ [?r1], offset = int (length ?T)\<rparr>"
  have lenT: "length ?T = nat ?m + 1" by (rule trimmed_length[OF off])
  have m0: "0 \<le> ?m" using off by (simp add: HISTORY_LIMIT_def)
  have m1: "?m + 1 = int (length ?T)" unfolding lenT using m0 by simp
  have Tpos: "0 < length ?T" unfolding lenT by simp
  have Tle: "length ?T \<le> HISTORY_LIMIT" unfolding lenT by (simp add: HISTORY_LIMIT_def)
  have red1: "reduce reducerOf now1 state (SET_TEXT t1) = Inr ?s1"
    using hooks diff
    by (simp add: reduce_def editorReducer_builtin noReducerHooks_offer setText_def resolve_def)
  have rec1: "newRecord now1 state ?c1 = ?r1" by (rule newRecord_text_only)
  have "recordHistory now1 state ?c1 h = \<lparr>stack = ?T @ [newRecord now1 state ?c1], offset = ?m + 1\<rparr>"
    by (rule recordHistory_push[OF off gap1])
  then have hist1: "history ?s1 = Some ?h1"
    using h unfolding rec1 m1 by (simp add: history_recordChange)
  have f1: "text ?s1 = t1" "selectionStart ?s1 = selectionStart state"
    "selectionEnd ?s1 = selectionEnd state" "selectionDirection ?s1 = selectionDirection state"
    by (simp_all add: snapshot_recordChange noChanges_def)
  have hooks1: "noReducerHooks reducerOf ?s1"
    using hooks by (simp add: noReducerHooks_def snapshot_recordChange)
  have g: "now2 - timestamp ?r1 < HISTORY_TIME_GAP" using gap2 by simp
  have r1: "snapshot ?r1 = snapshot ?s1" unfolding snapshot_def f1 by simp
  from second_set_text[OF hist1 Tpos Tle hooks1 g r1, of t2]
  obtain s2 h2 d where red2: "reduce reducerOf now2 ?s1 (SET_TEXT t2) = Inr s2"
    and hist2: "history s2 = Some h2"
    and st2: "stack h2 = drop d ?T @ [\<lparr>text = t2, selectionStart = selectionStart ?s1,
                             selectionEnd = selectionEnd ?s1,
                             selectionDirection = selectionDirection ?s1,
                             timestamp = timestamp ?r1\<rparr>]"
    and off2: "offset h2 = int (length (stack h2)) - 1"
    and len2: "length (stack h2) \<le> Suc (length ?T)"
    and tx2: "text s2 = t2"
    by blast
  have st2': "stack h2 = drop d ?T @ [\<lparr>text = t2, selectionStart = selectionStart state,
                      selectionEnd = selectionEnd state,
                      selectionDirection = selectionDirection state, timestamp = now1\<rparr>]"
    using st2 unfolding f1 by simp
  have "stack ?h1 = ?T @ [?r1]" by (rule EditorHistory.select_convs)
  moreover have "length (stack h2) \<le> length (stack ?h1)"
    using len2 unfolding EditorHistory.select_convs length_append by simp
  ultimately show ?thesis using red1 hist1 red2 hist2 st2' off2 tx2 by blast
qed


lemma group_at_offset:
  assumes "history state = Some h"
    and "0 \<le> offset h" and "offset h < int (length (stack h))"
    and "now - timestamp (stack h ! nat (offset h)) < HISTORY_TIME_GAP"
  shows "\<exists>h'. history (recordChange now state changes) = Some h'
           \<and> offset h' = min (offset h) (int HISTORY_LIMIT - 1)
           \<and> stack h' =
               (drop (Suc (nat (offset h)) - HISTORY_LIMIT) (take (Suc (nat (offset h))) (stack h)))
                 [nat (offset h') :=
                    (newRecord now state changes)\<lparr>timestamp := timestamp (stack h ! nat (offset h))\<rparr>]
           \<and> js_index (stack h') (offset h') =
               Some ((newRecord now state changes)\<lparr>timestamp := timestamp (stack h ! nat (offset h))\<rparr>)
           \<and> length (stack h') \<le> length (stack h)"
proof -
  let ?T = "drop (Suc (nat (offset h)) - HISTORY_LIMIT) (take (Suc (nat (offset h))) (stack h))"
  let ?m = "min (offset h) (int HISTORY_LIMIT - 1)"
  let ?r = "(newRecord now state changes)\<lparr>timestamp := timestamp (stack h ! nat (offset h))\<rparr>"
  let ?h = "\<lparr>stack = ?T[nat ?m := ?r], offset = ?m\<rparr>"
  have hist: "history (recordChange now state changes) = Some ?h"
    using assms(1) recordHistory_group[OF assms(2,3,4)] by (simp add: history_recordChange)
  have lenT: "length ?T = nat ?m + 1" by (rule trimmed_length[OF assms(2,3)])
  have m0: "0 \<le> ?m" using assms(2) by (simp add: HISTORY_LIMIT_def)
  have "js_index (?T[nat ?m := ?r]) ?m = Some ((?T[nat ?m := ?r]) ! nat ?m)"
  proof (rule js_index_valid[OF m0])
    show "?m < int (length (?T[nat ?m := ?r]))" unfolding length_list_update lenT using m0 by linarith
  qed
  also have "(?T[nat ?m := ?r]) ! nat ?m = ?r"
  proof (rule nth_list_update_eq)
    show "nat ?m < length ?T" unfolding lenT by simp
  qed
  finally have idx: "js_index (stack ?h) (offset ?h) = Some ?r" by simp
  have le: "length (stack ?h) \<le> length (stack h)"
    using trimmed_le[OF assms(2,3)] by simp
  have "offset ?h = ?m" by simp
  moreover have "stack ?h = ?T[nat (offset ?h) := ?r]" by simp
  ultimately show ?thesis using hist idx le by blast
qed


lemma undo_total:
  assumes "history state = Some h" "0 \<le> offset h" "offset h < int (length (stack h))"
  shows "undo state \<noteq> Inl e"
  using assms by (simp add: undo_def js_index_def)


lemma redo_total:
  assumes "history state = Some h" "0 \<le> offset h" "offset h < int (length (stack h))"
  shows "redo state \<noteq> Inl e"
  using assms by (simp add: redo_def js_index_def)


section \<open>The claims\<close>

subsection \<open>C1: the length of the history stack\<close>

text \<open>
  Claim C1 says that after \<open>recordChange\<close> the stack never holds more than
  \<open>HISTORY_LIMIT\<close> (1000) records. The code trims the stack to the limit
  before it pushes the new record, so the stack can hold one record more.
  The theorem runs the reducer on a state whose history holds exactly 1000
  records, the offset at the last, with a \<open>SET_TEXT\<close> reduced 1000 ms after
  the last record: the resulting stack holds 1001 records and the offset is
  1000.
\<close>

theorem history_exceeds_limit:
  "\<exists>s h. reduce noHooks 1000 fullHistoryState (SET_TEXT ''ab'') = Inr s
         \<and> history s = Some h \<and> length (stack h) = 1001 \<and> offset h = 1000
         \<and> HISTORY_LIMIT < length (stack h)"
proof -
  let ?c = "noChanges\<lparr>changedText := Some ''ab''\<rparr>"
  let ?r = "\<lparr>text = ''a'', selectionStart = 0, selectionEnd = 0, selectionDirection = NONE,
             timestamp = 0\<rparr>"
  let ?h = "\<lparr>stack = replicate 1000 ?r, offset = 999\<rparr>"
  let ?s = "recordChange 1000 fullHistoryState ?c"
  have red: "reduce noHooks 1000 fullHistoryState (SET_TEXT ''ab'') = Inr ?s"
    by (simp add: reduce_def editorReducer_builtin noHooks_offer setText_def resolve_def
        fullHistoryState_def)
  have h: "history fullHistoryState = Some ?h" by (simp add: fullHistoryState_def)
  have o1: "0 \<le> offset ?h" by simp
  have o2: "offset ?h < int (length (stack ?h))" by simp
  have g: "HISTORY_TIME_GAP \<le> 1000 - timestamp (stack ?h ! nat (offset ?h))"
    by (simp add: HISTORY_TIME_GAP_def)
  have "recordHistory 1000 fullHistoryState ?c ?h =
          \<lparr>stack = drop (Suc (nat (offset ?h)) - HISTORY_LIMIT)
                      (take (Suc (nat (offset ?h))) (stack ?h))
                    @ [newRecord 1000 fullHistoryState ?c],
           offset = min (offset ?h) (int HISTORY_LIMIT - 1) + 1\<rparr>"
    by (rule recordHistory_push[OF o1 o2 g])
  also have "\<dots> = \<lparr>stack = replicate 1000 ?r @ [newRecord 1000 fullHistoryState ?c],
                   offset = 1000\<rparr>"
    by (simp add: HISTORY_LIMIT_def)
  finally have hist: "history ?s = Some \<lparr>stack = replicate 1000 ?r @ [newRecord 1000 fullHistoryState ?c],
                   offset = 1000\<rparr>"
    using h by (simp add: history_recordChange)
  have "length (stack \<lparr>stack = replicate 1000 ?r @ [newRecord 1000 fullHistoryState ?c],
                   offset = 1000\<rparr>) = 1001" by simp
  moreover have "offset \<lparr>stack = replicate 1000 ?r @ [newRecord 1000 fullHistoryState ?c],
                   offset = 1000::int\<rparr> = 1000" by simp
  moreover have "HISTORY_LIMIT < 1001" by (simp add: HISTORY_LIMIT_def)
  ultimately show ?thesis using red hist by (metis (no_types, lifting))
qed


text \<open>
  What the code guarantees for every state and every change: after
  \<open>recordChange\<close> the stack holds at most \<open>HISTORY_LIMIT + 1\<close> records.
\<close>

theorem stack_holds_at_most_limit_plus_one:
  "(case history (recordChange now state changes) of
      None \<Rightarrow> True
    | Some h \<Rightarrow> length (stack h) \<le> HISTORY_LIMIT + 1)"
  by (simp add: history_recordChange recordHistory_length split: option.split)


subsection \<open>C2: undo and redo\<close>

text \<open>
  Claim C2, as amended. Let the state have no reducer hook among its plugins.
  (1) If its history is in sync with the live text and selection, and each of
  \<open>n \<le> HISTORY_LIMIT\<close> mutating actions passes its duplicate check and is
  reduced at least \<open>HISTORY_TIME_GAP\<close> after the record at the current
  offset (so each pushes a record), then \<open>n\<close> \<open>UNDO\<close> actions bring back the
  text, selection start, selection end and selection direction of the initial
  state. (2) If the history is in sync and the offset is positive, \<open>REDO\<close>
  right after \<open>UNDO\<close> gives back the state before the \<open>UNDO\<close>. (3)
  \<open>UNDO\<close> returns the same state when the history is absent or the offset
  is not positive. (4) \<open>REDO\<close> returns the same state when the offset is the
  last index.
\<close>

theorem undo_redo_inverse:
  assumes "noReducerHooks reducerOf state"
  shows "(inSync state \<and> eachPushes reducerOf state actions \<and> length actions \<le> HISTORY_LIMIT
            \<and> length ts = length actions
          \<longrightarrow> (\<exists>s1 s2. reduceAll reducerOf state actions = Inr s1
                  \<and> reduceAll reducerOf s1 (map (\<lambda>t. (t, UNDO)) ts) = Inr s2
                  \<and> text s2 = text state \<and> selectionStart s2 = selectionStart state
                  \<and> selectionEnd s2 = selectionEnd state
                  \<and> selectionDirection s2 = selectionDirection state))
       \<and> (inSync state \<and> (\<exists>h. history state = Some h \<and> 0 < offset h)
          \<longrightarrow> (\<exists>s1. reduce reducerOf t1 state UNDO = Inr s1
                  \<and> reduce reducerOf t2 s1 REDO = Inr state))
       \<and> (history state = None \<or> (\<exists>h. history state = Some h \<and> offset h \<le> 0)
          \<longrightarrow> editorReducer reducerOf t1 state UNDO = Inr SameState)
       \<and> ((\<exists>h. history state = Some h \<and> offset h = int (length (stack h)) - 1)
          \<longrightarrow> editorReducer reducerOf t2 state REDO = Inr SameState)"
proof (intro conjI impI)
  assume a: "inSync state \<and> eachPushes reducerOf state actions \<and> length actions \<le> HISTORY_LIMIT
               \<and> length ts = length actions"
  then have sync: "inSync state" and push: "eachPushes reducerOf state actions"
    and n: "0 + length actions \<le> HISTORY_LIMIT" and len: "length ts = length actions"
    by simp_all
  from sync obtain h where h: "history state = Some h" and off: "0 \<le> offset h"
    and snap: "snapshot (stack h ! nat (offset h)) = snapshot state"
    by (rule inSync_valid)
  have k0: "int 0 \<le> offset h" using off by simp
  from run_pushes[OF assms sync push h k0 n]
  obtain s1 h1 where run1: "reduceAll reducerOf state actions = Inr s1"
    and hooks1: "noReducerHooks reducerOf s1" and sync1: "inSync s1"
    and h1: "history s1 = Some h1" and le1: "int (length actions) \<le> offset h1"
    and nth1: "stack h1 ! nat (offset h1 - int (length actions)) = stack h ! nat (offset h)"
    by auto
  have le1': "int (length ts) \<le> offset h1" using le1 len by simp
  from undo_run[OF hooks1 sync1 h1 le1']
  obtain s2 where run2: "reduceAll reducerOf s1 (map (\<lambda>t. (t, UNDO)) ts) = Inr s2"
    and sync2: "inSync s2"
    and h2: "history s2 = Some (h1\<lparr>offset := offset h1 - int (length ts)\<rparr>)"
    by blast
  from sync2 obtain h2' where "history s2 = Some h2'"
    and "snapshot (stack h2' ! nat (offset h2')) = snapshot s2"
    by (rule inSync_valid)
  with h2 have "snapshot (stack h1 ! nat (offset h1 - int (length ts))) = snapshot s2" by auto
  with nth1 snap len have "snapshot s2 = snapshot state" by simp
  then have "text s2 = text state \<and> selectionStart s2 = selectionStart state
               \<and> selectionEnd s2 = selectionEnd state
               \<and> selectionDirection s2 = selectionDirection state"
    by (simp add: snapshot_def)
  with run1 run2 show "\<exists>s1 s2. reduceAll reducerOf state actions = Inr s1
                  \<and> reduceAll reducerOf s1 (map (\<lambda>t. (t, UNDO)) ts) = Inr s2
                  \<and> text s2 = text state \<and> selectionStart s2 = selectionStart state
                  \<and> selectionEnd s2 = selectionEnd state
                  \<and> selectionDirection s2 = selectionDirection state"
    by blast
next
  assume "inSync state \<and> (\<exists>h. history state = Some h \<and> 0 < offset h)"
  then obtain h where "inSync state" "history state = Some h" "0 < offset h" by blast
  then show "\<exists>s1. reduce reducerOf t1 state UNDO = Inr s1 \<and> reduce reducerOf t2 s1 REDO = Inr state"
    using assms by (intro undo_then_redo)
next
  assume "history state = None \<or> (\<exists>h. history state = Some h \<and> offset h \<le> 0)"
  then have "undo state = Inr SameState" by (auto simp: undo_def)
  then show "editorReducer reducerOf t1 state UNDO = Inr SameState"
    using assms by (simp add: editorReducer_builtin noReducerHooks_offer)
next
  assume "\<exists>h. history state = Some h \<and> offset h = int (length (stack h)) - 1"
  then have "redo state = Inr SameState" by (auto simp: redo_def)
  then show "editorReducer reducerOf t2 state REDO = Inr SameState"
    using assms by (simp add: editorReducer_builtin noReducerHooks_offer)
qed


text \<open>
  The theorem at the initial state of an editor mounted with \<open>abc\<close>
  (a text change and a selection change, then two undos; \<open>UNDO\<close> and
  \<open>REDO\<close> at the only record), and at a state with two records (\<open>REDO\<close>
  after \<open>UNDO\<close>).
\<close>

theorem undo_redo_inverse_witness:
  "(\<exists>s1 s2. reduceAll noHooks (initialState ''abc'' 0)
               [(1000, SET_TEXT ''abcd''), (2000, SET_SELECTION 4 4 None)] = Inr s1
        \<and> reduceAll noHooks s1 [(3000, UNDO), (3001, UNDO)] = Inr s2
        \<and> text s2 = ''abc'' \<and> selectionStart s2 = 0 \<and> selectionEnd s2 = 0
        \<and> selectionDirection s2 = NONE)
   \<and> editorReducer noHooks 3000 (initialState ''abc'' 0) UNDO = Inr SameState
   \<and> editorReducer noHooks 3001 (initialState ''abc'' 0) REDO = Inr SameState
   \<and> (\<exists>s1. reduce noHooks 3000 typedState UNDO = Inr s1
          \<and> reduce noHooks 3001 s1 REDO = Inr typedState)"
proof -
  let ?init = "initialState ''abc'' 0 :: unit EditorState"
  let ?acts = "[(1000, SET_TEXT ''abcd''), (2000, SET_SELECTION 4 4 None)]"
  have sync: "inSync ?init"
    by (simp add: inSync_def initialState_def js_index_def snapshot_def)
  have push: "eachPushes noHooks ?init ?acts"
    by (simp add: initialState_def reduce_def editorReducer_builtin noHooks_offer setText_def
        setSelection_def resolve_def record_defs)
  have len: "length ?acts \<le> HISTORY_LIMIT" by (simp add: HISTORY_LIMIT_def)
  have f: "text ?init = ''abc''" "selectionStart ?init = 0" "selectionEnd ?init = 0"
    "selectionDirection ?init = NONE"
    "history ?init = Some \<lparr>stack = [\<lparr>text = ''abc'', selectionStart = 0, selectionEnd = 0,
                               selectionDirection = NONE, timestamp = 0\<rparr>], offset = 0\<rparr>"
    by (simp_all add: initialState_def)
  note a = undo_redo_inverse[OF noHooks_noReducerHooks, of ?init ?acts "[3000, 3001]" 3000 3001]
  have p1: "\<exists>s1 s2. reduceAll noHooks ?init ?acts = Inr s1
        \<and> reduceAll noHooks s1 [(3000, UNDO), (3001, UNDO)] = Inr s2
        \<and> text s2 = ''abc'' \<and> selectionStart s2 = 0 \<and> selectionEnd s2 = 0
        \<and> selectionDirection s2 = NONE"
    using a sync push len unfolding f by simp
  have p2: "editorReducer noHooks 3000 ?init UNDO = Inr SameState"
    using a unfolding f by simp
  have p3: "editorReducer noHooks 3001 ?init REDO = Inr SameState"
    using a unfolding f by simp
  have syncT: "inSync typedState"
    by (simp add: inSync_def typedState_def js_index_def snapshot_def)
  have hT: "\<exists>h. history typedState = Some h \<and> 0 < offset h"
    by (simp add: typedState_def)
  have p4: "\<exists>s1. reduce noHooks 3000 typedState UNDO = Inr s1
          \<and> reduce noHooks 3001 s1 REDO = Inr typedState"
    using undo_redo_inverse[OF noHooks_noReducerHooks, of typedState "[]" "[]" 3000 3001] syncT hT
    by blast
  from p1 p2 p3 p4 show ?thesis by blast
qed


text \<open>
  Claim C2 as stated fails: a \<open>SET_TEXT\<close> reduced 50 ms after the editor was
  mounted is grouped with the initial record, which it overwrites. The one
  \<open>UNDO\<close> that follows finds the offset at 0 and changes nothing: the text
  stays \<open>b\<close>, the initial text was empty.
\<close>

theorem grouped_change_is_not_undone:
  "\<exists>s. reduceAll noHooks (initialState '''' 0) [(50, SET_TEXT ''b''), (60, UNDO)] = Inr s
       \<and> text s = ''b''
       \<and> text (initialState '''' 0 :: unit EditorState) = ''''
       \<and> history (initialState '''' 0 :: unit EditorState)
           = Some \<lparr>stack = [\<lparr>text = '''', selectionStart = 0, selectionEnd = 0,
                               selectionDirection = NONE, timestamp = 0\<rparr>], offset = 0\<rparr>"
  by (simp add: initialState_def reduce_def editorReducer_builtin noHooks_offer setText_def
      resolve_def undo_def record_defs)


subsection \<open>C3: ADD_PREFIX_POSTFIX\<close>

text \<open>
  Claim C3, as amended. When no reducer hook of the plugins claims the action,
  \<open>ADD_PREFIX_POSTFIX\<close> gives the text
  \<open>before @ prefix @ selected @ postfix @ after\<close>, where the three parts are
  the slices of the old text at the old selection bounds; the new selection
  starts \<open>length prefix\<close> after the old start and is as long as the
  selected text; if text and selection come out as they were, the reducer
  returns the same state; and when the old selection start lies within the
  text, the new selection covers exactly the text that was selected.
\<close>

theorem add_prefix_postfix_wraps_selection:
  assumes "offerToPlugins reducerOf state (ADD_PREFIX_POSTFIX pre post) = None"
  shows "\<exists>r. editorReducer reducerOf now state (ADD_PREFIX_POSTFIX pre post) = Inr r
           \<and> text (resolve state r) =
               slice (text state) 0 (selectionStart state) @ pre
                 @ slice (text state) (selectionStart state) (selectionEnd state) @ post
                 @ sliceFrom (text state) (selectionEnd state)
           \<and> selectionStart (resolve state r) = selectionStart state + int (length pre)
           \<and> selectionEnd (resolve state r) =
               selectionStart state + int (length pre)
                 + int (length (slice (text state) (selectionStart state) (selectionEnd state)))
           \<and> (text (resolve state r) = text state
                \<and> selectionStart (resolve state r) = selectionStart state
                \<and> selectionEnd (resolve state r) = selectionEnd state
               \<longrightarrow> r = SameState)
           \<and> (0 \<le> selectionStart state \<and> selectionStart state \<le> int (length (text state))
               \<longrightarrow> slice (text (resolve state r)) (selectionStart (resolve state r))
                     (selectionEnd (resolve state r))
                   = slice (text state) (selectionStart state) (selectionEnd state))"
proof -
  let ?before = "slice (text state) 0 (selectionStart state)"
  let ?sel = "slice (text state) (selectionStart state) (selectionEnd state)"
  let ?after = "sliceFrom (text state) (selectionEnd state)"
  let ?r = "addPrefixPostfix now state pre post"
  let ?cond = "text state = ?before @ pre @ ?sel @ post @ ?after
                 \<and> selectionStart state = selectionStart state + int (length pre)
                 \<and> selectionEnd state = selectionStart state + int (length pre) + int (length ?sel)"
  have red: "editorReducer reducerOf now state (ADD_PREFIX_POSTFIX pre post) = Inr ?r"
    using assms by (simp add: editorReducer_builtin)
  have fields: "text (resolve state ?r) = ?before @ pre @ ?sel @ post @ ?after
                 \<and> selectionStart (resolve state ?r) = selectionStart state + int (length pre)
                 \<and> selectionEnd (resolve state ?r) =
                     selectionStart state + int (length pre) + int (length ?sel)"
  proof (cases ?cond)
    case True
    then have r: "?r = SameState" unfolding addPrefixPostfix_def Let_def by (rule if_P)
    show ?thesis unfolding r resolve_def outcome.case by (rule True)
  next
    case False
    then have "?r = NewState (recordChange now state
                (noChanges\<lparr>changedText := Some (?before @ pre @ ?sel @ post @ ?after),
                            changedSelectionStart := Some (selectionStart state + int (length pre)),
                            changedSelectionEnd :=
                              Some (selectionStart state + int (length pre) + int (length ?sel))\<rparr>))"
      unfolding addPrefixPostfix_def Let_def by (rule if_not_P)
    then show ?thesis by (simp add: resolve_def snapshot_recordChange noChanges_def)
  qed
  have same: "text (resolve state ?r) = text state
                \<and> selectionStart (resolve state ?r) = selectionStart state
                \<and> selectionEnd (resolve state ?r) = selectionEnd state
               \<longrightarrow> ?r = SameState"
  proof
    assume "text (resolve state ?r) = text state
              \<and> selectionStart (resolve state ?r) = selectionStart state
              \<and> selectionEnd (resolve state ?r) = selectionEnd state"
    with fields have ?cond by metis
    then show "?r = SameState" unfolding addPrefixPostfix_def Let_def by (rule if_P)
  qed
  have cover: "0 \<le> selectionStart state \<and> selectionStart state \<le> int (length (text state))
               \<longrightarrow> slice (text (resolve state ?r)) (selectionStart (resolve state ?r))
                     (selectionEnd (resolve state ?r)) = ?sel"
    using fields by (simp add: slice_middle length_slice_prefix)
  from red fields same cover show ?thesis by blast
qed


text \<open>
  The Bold example: on \<open>abc\<close>, all selected, Ctrl+B makes the handler of
  BoldPlugin dispatch \<open>ADD_PREFIX_POSTFIX\<close> with \<open>**\<close> and \<open>**\<close>; the
  text becomes \<open>**abc**\<close> and the selection 2 to 5.
\<close>

theorem add_prefix_postfix_wraps_selection_witness:
  "boldKeyDownHandler ctrlB (selectedAbc :: unit EditorState) = ([ADD_PREFIX_POSTFIX ''**'' ''**''], True)
   \<and> text (selectedAbc :: unit EditorState) = ''abc''
   \<and> selectionStart (selectedAbc :: unit EditorState) = 0
   \<and> selectionEnd (selectedAbc :: unit EditorState) = 3
   \<and> (\<exists>r. editorReducer noHooks 1000 selectedAbc (ADD_PREFIX_POSTFIX ''**'' ''**'') = Inr r
          \<and> text (resolve selectedAbc r) = ''**abc**''
          \<and> selectionStart (resolve selectedAbc r) = 2
          \<and> selectionEnd (resolve selectedAbc r) = 5
          \<and> slice (text (resolve selectedAbc r)) (selectionStart (resolve selectedAbc r))
               (selectionEnd (resolve selectedAbc r)) = ''abc'')"
proof -
  have f: "text (selectedAbc :: unit EditorState) = ''abc''"
    "selectionStart (selectedAbc :: unit EditorState) = 0"
    "selectionEnd (selectedAbc :: unit EditorState) = 3"
    by (simp_all add: selectedAbc_def initialState_def)
  have bold: "boldKeyDownHandler ctrlB (selectedAbc :: unit EditorState)
                = ([ADD_PREFIX_POSTFIX ''**'' ''**''], True)"
    by (simp add: boldKeyDownHandler_def ctrlB_def f)
  have s1: "slice ''abc'' 0 0 = ''''" "slice ''abc'' 0 3 = ''abc''" "sliceFrom ''abc'' 3 = ''''"
    by (simp_all add: slice_def sliceFrom_def sliceIndex_def)
  from add_prefix_postfix_wraps_selection[OF noHooks_offer, of 1000 selectedAbc "''**''" "''**''"]
  have "\<exists>r. editorReducer noHooks 1000 selectedAbc (ADD_PREFIX_POSTFIX ''**'' ''**'') = Inr r
          \<and> text (resolve selectedAbc r) = ''**abc**''
          \<and> selectionStart (resolve selectedAbc r) = 2
          \<and> selectionEnd (resolve selectedAbc r) = 5
          \<and> slice (text (resolve selectedAbc r)) (selectionStart (resolve selectedAbc r))
               (selectionEnd (resolve selectedAbc r)) = ''abc''"
    unfolding f s1 by auto
  with bold f show ?thesis by simp
qed


text \<open>
  Claim C3 as stated (for every state) fails: in a state whose plugins hold a
  reducer hook that answers the action, the reducer returns the result of the
  hook and the selection is not wrapped.
\<close>

theorem wrap_claimed_by_hook:
  "editorReducer exampleReducerOf 0 pluggedState (ADD_PREFIX_POSTFIX ''**'' ''**'')
     = Inr (NewState (pluggedState\<lparr>text := ''xx''\<rparr>))
   \<and> text pluggedState = ''abc'' \<and> selectionStart pluggedState = 0 \<and> selectionEnd pluggedState = 3
   \<and> text (pluggedState\<lparr>text := ''xx''\<rparr>) \<noteq> ''**abc**''
   \<and> selectionStart (pluggedState\<lparr>text := ''xx''\<rparr>) \<noteq> 2"
  by (simp add: editorReducer_def offerToPlugins_def pluggedState_def
      exampleReducerOf_def selectedAbc_def initialState_def eval_nat_numeral)


subsection \<open>C4: grouping of changes in quick succession\<close>

text \<open>
  Claim C4, as amended. Let the history be present and the offset index the
  stack. (1) If \<open>recordChange\<close> runs less than \<open>HISTORY_TIME_GAP\<close> (200 ms)
  after the timestamp of the record at the offset, that record is replaced by
  the candidate with the timestamp of the replaced record, the offset still
  points at it, and the stack does not grow. (2) If no plugin has a reducer
  hook, a first \<open>SET_TEXT\<close> changes the text and is reduced at least 200 ms
  after the record at the offset (so that it pushes a record of its own), and
  a second \<open>SET_TEXT\<close> is reduced less than 200 ms after the first, then
  the two add exactly one record after the former records up to the offset
  (of which the oldest may have been dropped at the limit): it is the last
  record, the offset points at it, and it holds the timestamp of the first
  action and the text of the second.
\<close>

theorem rapid_changes_are_grouped:
  assumes "history state = Some h"
    and "0 \<le> offset h" and "offset h < int (length (stack h))"
  shows "(now - timestamp (stack h ! nat (offset h)) < HISTORY_TIME_GAP
          \<longrightarrow> (\<exists>h'. history (recordChange now state changes) = Some h'
                 \<and> offset h' = min (offset h) (int HISTORY_LIMIT - 1)
                 \<and> stack h' =
                     (drop (Suc (nat (offset h)) - HISTORY_LIMIT)
                        (take (Suc (nat (offset h))) (stack h)))
                       [nat (offset h') :=
                          (newRecord now state changes)
                            \<lparr>timestamp := timestamp (stack h ! nat (offset h))\<rparr>]
                 \<and> js_index (stack h') (offset h') =
                     Some ((newRecord now state changes)
                             \<lparr>timestamp := timestamp (stack h ! nat (offset h))\<rparr>)
                 \<and> length (stack h') \<le> length (stack h)))
       \<and> (noReducerHooks reducerOf state \<and> t1 \<noteq> text state
            \<and> HISTORY_TIME_GAP \<le> now1 - timestamp (stack h ! nat (offset h))
            \<and> now2 - now1 < HISTORY_TIME_GAP
          \<longrightarrow> (\<exists>s1 s2 h1 h2 d.
                 reduce reducerOf now1 state (SET_TEXT t1) = Inr s1 \<and> history s1 = Some h1
                 \<and> stack h1 =
                     drop (Suc (nat (offset h)) - HISTORY_LIMIT)
                       (take (Suc (nat (offset h))) (stack h))
                       @ [\<lparr>text = t1, selectionStart = selectionStart state,
                            selectionEnd = selectionEnd state,
                            selectionDirection = selectionDirection state, timestamp = now1\<rparr>]
                 \<and> reduce reducerOf now2 s1 (SET_TEXT t2) = Inr s2 \<and> history s2 = Some h2
                 \<and> stack h2 =
                     drop d (drop (Suc (nat (offset h)) - HISTORY_LIMIT)
                               (take (Suc (nat (offset h))) (stack h)))
                       @ [\<lparr>text = t2, selectionStart = selectionStart state,
                            selectionEnd = selectionEnd state,
                            selectionDirection = selectionDirection state, timestamp = now1\<rparr>]
                 \<and> offset h2 = int (length (stack h2)) - 1
                 \<and> length (stack h2) \<le> length (stack h1)
                 \<and> text s2 = t2))"
proof (intro conjI impI)
  assume "now - timestamp (stack h ! nat (offset h)) < HISTORY_TIME_GAP"
  then show "\<exists>h'. history (recordChange now state changes) = Some h'
                 \<and> offset h' = min (offset h) (int HISTORY_LIMIT - 1)
                 \<and> stack h' =
                     (drop (Suc (nat (offset h)) - HISTORY_LIMIT)
                        (take (Suc (nat (offset h))) (stack h)))
                       [nat (offset h') :=
                          (newRecord now state changes)
                            \<lparr>timestamp := timestamp (stack h ! nat (offset h))\<rparr>]
                 \<and> js_index (stack h') (offset h') =
                     Some ((newRecord now state changes)
                             \<lparr>timestamp := timestamp (stack h ! nat (offset h))\<rparr>)
                 \<and> length (stack h') \<le> length (stack h)"
    by (rule group_at_offset[OF assms])
next
  assume "noReducerHooks reducerOf state \<and> t1 \<noteq> text state
            \<and> HISTORY_TIME_GAP \<le> now1 - timestamp (stack h ! nat (offset h))
            \<and> now2 - now1 < HISTORY_TIME_GAP"
  then have a: "noReducerHooks reducerOf state" "t1 \<noteq> text state"
    "HISTORY_TIME_GAP \<le> now1 - timestamp (stack h ! nat (offset h))"
    "now2 - now1 < HISTORY_TIME_GAP"
    by simp_all
  show "\<exists>s1 s2 h1 h2 d.
                 reduce reducerOf now1 state (SET_TEXT t1) = Inr s1 \<and> history s1 = Some h1
                 \<and> stack h1 =
                     drop (Suc (nat (offset h)) - HISTORY_LIMIT)
                       (take (Suc (nat (offset h))) (stack h))
                       @ [\<lparr>text = t1, selectionStart = selectionStart state,
                            selectionEnd = selectionEnd state,
                            selectionDirection = selectionDirection state, timestamp = now1\<rparr>]
                 \<and> reduce reducerOf now2 s1 (SET_TEXT t2) = Inr s2 \<and> history s2 = Some h2
                 \<and> stack h2 =
                     drop d (drop (Suc (nat (offset h)) - HISTORY_LIMIT)
                               (take (Suc (nat (offset h))) (stack h)))
                       @ [\<lparr>text = t2, selectionStart = selectionStart state,
                            selectionEnd = selectionEnd state,
                            selectionDirection = selectionDirection state, timestamp = now1\<rparr>]
                 \<and> offset h2 = int (length (stack h2)) - 1
                 \<and> length (stack h2) \<le> length (stack h1)
                 \<and> text s2 = t2"
    by (rule two_set_text[OF assms a])
qed


text \<open>
  The theorem at a state with two records (timestamps 0 and 1000, the offset
  at the second): a change at 1100 is grouped into the second record, which
  keeps the timestamp 1000; the texts \<open>ab\<close> at 2000 and \<open>abc\<close> at 2100 add
  one record, with the timestamp 2000 and the text \<open>abc\<close>.
\<close>

theorem rapid_changes_are_grouped_witness:
  "(\<exists>h'. history (recordChange 1100 typedState (noChanges\<lparr>changedText := Some ''ab''\<rparr>)) = Some h'
       \<and> offset h' = 1
       \<and> stack h' = [\<lparr>text = '''', selectionStart = 0, selectionEnd = 0,
                       selectionDirection = NONE, timestamp = 0\<rparr>,
                     \<lparr>text = ''ab'', selectionStart = 1, selectionEnd = 1,
                       selectionDirection = NONE, timestamp = 1000\<rparr>])
   \<and> (\<exists>s1 s2 h1 h2 d.
         reduce noHooks 2000 typedState (SET_TEXT ''ab'') = Inr s1 \<and> history s1 = Some h1
         \<and> length (stack h1) = 3
         \<and> reduce noHooks 2100 s1 (SET_TEXT ''abc'') = Inr s2 \<and> history s2 = Some h2
         \<and> stack h2 = drop d [\<lparr>text = '''', selectionStart = 0, selectionEnd = 0,
                                 selectionDirection = NONE, timestamp = 0\<rparr>,
                               \<lparr>text = ''a'', selectionStart = 1, selectionEnd = 1,
                                 selectionDirection = NONE, timestamp = 1000\<rparr>]
                      @ [\<lparr>text = ''abc'', selectionStart = 1, selectionEnd = 1,
                           selectionDirection = NONE, timestamp = 2000\<rparr>]
         \<and> offset h2 = int (length (stack h2)) - 1
         \<and> length (stack h2) \<le> 3
         \<and> text s2 = ''abc'')"
proof -
  let ?h = "\<lparr>stack = [\<lparr>text = '''', selectionStart = 0, selectionEnd = 0,
                         selectionDirection = NONE, timestamp = 0\<rparr>,
                       \<lparr>text = ''a'', selectionStart = 1, selectionEnd = 1,
                         selectionDirection = NONE, timestamp = 1000\<rparr>],
              offset = 1\<rparr>"
  have h: "history typedState = Some ?h" by (simp add: typedState_def)
  have f: "text typedState = ''a''" "selectionStart typedState = 1" "selectionEnd typedState = 1"
    "selectionDirection typedState = NONE"
    by (simp_all add: typedState_def)
  have o1: "0 \<le> offset ?h" by simp
  have o2: "offset ?h < int (length (stack ?h))" by simp
  have rec: "(newRecord 1100 typedState (noChanges\<lparr>changedText := Some ''ab''\<rparr>))\<lparr>timestamp := 1000\<rparr>
               = \<lparr>text = ''ab'', selectionStart = 1, selectionEnd = 1,
                  selectionDirection = NONE, timestamp = 1000\<rparr>"
    by (simp add: newRecord_text_only f)
  note inst = rapid_changes_are_grouped[OF h o1 o2, of 1100 "noChanges\<lparr>changedText := Some ''ab''\<rparr>"
      noHooks "''ab''" 2000 2100 "''abc''"]
  have first: "\<exists>h'. history (recordChange 1100 typedState (noChanges\<lparr>changedText := Some ''ab''\<rparr>)) = Some h'
       \<and> offset h' = 1
       \<and> stack h' = [\<lparr>text = '''', selectionStart = 0, selectionEnd = 0,
                       selectionDirection = NONE, timestamp = 0\<rparr>,
                     \<lparr>text = ''ab'', selectionStart = 1, selectionEnd = 1,
                       selectionDirection = NONE, timestamp = 1000\<rparr>]"
    using inst by (auto simp: HISTORY_LIMIT_def HISTORY_TIME_GAP_def rec)
  have second: "\<exists>s1 s2 h1 h2 d.
         reduce noHooks 2000 typedState (SET_TEXT ''ab'') = Inr s1 \<and> history s1 = Some h1
         \<and> length (stack h1) = 3
         \<and> reduce noHooks 2100 s1 (SET_TEXT ''abc'') = Inr s2 \<and> history s2 = Some h2
         \<and> stack h2 = drop d [\<lparr>text = '''', selectionStart = 0, selectionEnd = 0,
                                 selectionDirection = NONE, timestamp = 0\<rparr>,
                               \<lparr>text = ''a'', selectionStart = 1, selectionEnd = 1,
                                 selectionDirection = NONE, timestamp = 1000\<rparr>]
                      @ [\<lparr>text = ''abc'', selectionStart = 1, selectionEnd = 1,
                           selectionDirection = NONE, timestamp = 2000\<rparr>]
         \<and> offset h2 = int (length (stack h2)) - 1
         \<and> length (stack h2) \<le> 3
         \<and> text s2 = ''abc''"
    using inst
    by (simp add: HISTORY_LIMIT_def HISTORY_TIME_GAP_def f noHooks_noReducerHooks) fastforce
  from first second show ?thesis by blast
qed


text \<open>
  Claim C4 as stated (any two \<open>SET_TEXT\<close> actions less than 200 ms apart)
  fails: the gap is measured from the timestamp that the record at the offset
  keeps, not from the previous action. In an editor mounted at 0, the text
  \<open>a\<close> at 150 is grouped into the initial record, which keeps the timestamp
  0; the text \<open>ab\<close> at 300, 150 ms later, is 300 ms after that record and is
  pushed. The two texts are held by two records, and the later text has the
  later timestamp 300.
\<close>

theorem first_change_grouped_with_seed_gives_two_records:
  "\<exists>s. reduceAll noHooks (initialState '''' 0) [(150, SET_TEXT ''a''), (300, SET_TEXT ''ab'')] = Inr s
      \<and> history s =
          Some \<lparr>stack = [\<lparr>text = ''a'', selectionStart = 0, selectionEnd = 0,
                           selectionDirection = NONE, timestamp = 0\<rparr>,
                         \<lparr>text = ''ab'', selectionStart = 0, selectionEnd = 0,
                           selectionDirection = NONE, timestamp = 300\<rparr>],
                offset = 1\<rparr>
      \<and> (300::int) - 150 < HISTORY_TIME_GAP"
  by (simp add: initialState_def reduce_def editorReducer_builtin noHooks_offer setText_def
      resolve_def record_defs)


subsection \<open>C5: actions that change nothing\<close>

text \<open>
  Claim C5, as amended. When no reducer hook of the plugins claims the action,
  \<open>SET_SELECTION\<close>, \<open>SET_TEXT\<close> and \<open>SET_TEXT_AND_SELECTION\<close> with a
  payload equal to the fields of the state return the same state object, so
  the history does not change either.
\<close>

theorem identical_payload_is_noop:
  assumes "action = SET_SELECTION (selectionStart state) (selectionEnd state) (Some (selectionDirection state))
           \<or> action = SET_TEXT (text state)
           \<or> action = SET_TEXT_AND_SELECTION (text state) (selectionStart state) (selectionEnd state)
                         (Some (selectionDirection state))"
    and "offerToPlugins reducerOf state action = None"
  shows "editorReducer reducerOf now state action = Inr SameState
         \<and> reduce reducerOf now state action = Inr state"
  using assms
  by (auto simp: editorReducer_def reduce_def resolve_def setSelection_def setText_def
      setTextAndSelection_def)


theorem identical_payload_is_noop_witness:
  "editorReducer noHooks 5000 typedState (SET_SELECTION 1 1 (Some NONE)) = Inr SameState
   \<and> editorReducer noHooks 5000 typedState (SET_TEXT ''a'') = Inr SameState
   \<and> editorReducer noHooks 5000 typedState (SET_TEXT_AND_SELECTION ''a'' 1 1 (Some NONE)) = Inr SameState
   \<and> reduce noHooks 5000 typedState (SET_TEXT ''a'') = Inr typedState"
proof -
  have f: "text typedState = ''a''" "selectionStart typedState = 1" "selectionEnd typedState = 1"
    "selectionDirection typedState = NONE"
    by (simp_all add: typedState_def)
  have "editorReducer noHooks 5000 typedState (SET_SELECTION 1 1 (Some NONE)) = Inr SameState"
    using identical_payload_is_noop[of "SET_SELECTION 1 1 (Some NONE)" typedState noHooks 5000]
    by (simp add: f noHooks_offer)
  moreover have "editorReducer noHooks 5000 typedState (SET_TEXT ''a'') = Inr SameState
                 \<and> reduce noHooks 5000 typedState (SET_TEXT ''a'') = Inr typedState"
    using identical_payload_is_noop[of "SET_TEXT ''a''" typedState noHooks 5000]
    by (simp add: f noHooks_offer)
  moreover have "editorReducer noHooks 5000 typedState (SET_TEXT_AND_SELECTION ''a'' 1 1 (Some NONE))
                   = Inr SameState"
    using identical_payload_is_noop[of "SET_TEXT_AND_SELECTION ''a'' 1 1 (Some NONE)" typedState noHooks 5000]
    by (simp add: f noHooks_offer)
  ultimately show ?thesis by simp
qed


text \<open>
  Claim C5 as stated (for every state) fails: a reducer hook of the plugins
  that answers \<open>SET_TEXT\<close> replaces the state although the payload is the
  text of the state.
\<close>

theorem identical_payload_claimed_by_hook:
  "editorReducer exampleReducerOf 0 pluggedState (SET_TEXT (text pluggedState))
     = Inr (NewState (pluggedState\<lparr>text := ''xx''\<rparr>))
   \<and> editorReducer exampleReducerOf 0 pluggedState (SET_TEXT (text pluggedState)) \<noteq> Inr SameState
   \<and> text (pluggedState\<lparr>text := ''xx''\<rparr>) \<noteq> text pluggedState"
  by (simp add: editorReducer_def offerToPlugins_def pluggedState_def
      exampleReducerOf_def selectedAbc_def initialState_def eval_nat_numeral)


subsection \<open>C6: isSelectionInMarkdownLink\<close>

text \<open>
  Claim C6 says that the function returns true iff the selection lies in the
  URL part of a link: between a \<open>](\<close> whose opening bracket exists and the
  parenthesis that closes it (\<open>selectionInLinkUrl\<close>). The code takes the
  first \<open>)\<close> at or after the selection end, whichever link it closes. On
  the text with two links of the tests of the function, for the selection
  from \<open>.com)\<close> of the first link to \<open>[link2\<close> of the second (the test
  that is commented out as not working as expected), the code returns true
  although the selection leaves the URL of the first link.
\<close>

theorem between_links_selection_reported_in_link:
  "isSelectionInMarkdownLink twoLinks 24 40 \<and> \<not> selectionInLinkUrl twoLinks 24 40
   \<and> substring twoLinks 24 40 = ''.com) and [link2''"
  by code_simp


text \<open>
  The example of the claim holds: in \<open>[link](https://example.com)\<close> the
  selection of \<open>https://example\<close> is reported to be in a link.
\<close>

lemma in_url_selection_is_in_link:
  "isSelectionInMarkdownLink oneLink 7 22 \<and> selectionInLinkUrl oneLink 7 22
   \<and> substring oneLink 7 22 = ''https://example''"
  by (simp add: oneLink_def isSelectionInMarkdownLink_def selectionInLinkUrl_def substring_def
      substringFrom_def substringIndex_def Let_def eval_nat_numeral)


text \<open>
  What the code computes: the final test that the selection lies between
  \<open>urlStart\<close> and \<open>urlEnd\<close> never fails, so the function returns true
  exactly when a \<open>](\<close> lies before the selection start, the backward scan
  finds its bracket, and some \<open>)\<close> lies at or after the selection end.
\<close>

theorem link_check_characterised:
  "isSelectionInMarkdownLink txt selStart selEnd =
     (let openParenIndex = lastIndexOf (substring txt 0 selStart) ''](''
      in openParenIndex \<noteq> -1
         \<and> scanBack txt (nat openParenIndex) 1 \<noteq> -1
         \<and> indexOf (substringFrom txt selEnd) '')'' \<noteq> -1)"
proof -
  let ?o = "lastIndexOf (substring txt 0 selStart) ''](''"
  let ?c = "indexOf (substringFrom txt selEnd) '')''"
  have start: "?o + 2 \<le> selStart" if "?o \<noteq> -1"
  proof -
    from lastIndexOf_bounds[OF that]
    have "?o + 2 \<le> int (length (substring txt 0 selStart))" by simp
    moreover have "int (length (substring txt 0 selStart)) \<le> selStart \<or> substring txt 0 selStart = []"
      by (auto simp: substring_def substringIndex_def Let_def)
    moreover have "substring txt 0 selStart \<noteq> []" using that by auto
    ultimately show ?thesis by linarith
  qed
  have fin: "selEnd \<le> int (length txt) - int (length (substringFrom txt selEnd)) + ?c" if "?c \<noteq> -1"
  proof -
    from that indexOf_bounds[of "substringFrom txt selEnd" "'')''"] have c0: "0 \<le> ?c" by auto
    have ne: "substringFrom txt selEnd \<noteq> []" using that by auto
    then have "selEnd < int (length txt)"
      by (auto simp: substringFrom_def substringIndex_def split: if_splits)
    then have "selEnd \<le> int (length txt) - int (length (substringFrom txt selEnd))"
      by (auto simp: substringFrom_def substringIndex_def)
    with c0 show ?thesis by linarith
  qed
  show ?thesis
    using start fin by (auto simp: isSelectionInMarkdownLink_def Let_def)
qed


subsection \<open>C7: distribution of KEY_DOWN and PASTE events\<close>





subsection \<open>C8: reducer hooks of the plugins\<close>

text \<open>
  Claim C8. Let \<open>state.plugins\<close> be present. If it holds, in its iteration
  order, plugins whose hooks are absent or return \<^verbatim>\<open>null\<close>, then a plugin
  whose hook returns a result, then the reducer returns that result, whatever
  the action and whatever the later plugins: no built-in case runs and no
  history entry is recorded. Only if every hook is absent or returns
  \<^verbatim>\<open>null\<close> does the built-in case of the action run.
\<close>

theorem plugin_hook_short_circuits:
  assumes "plugins state = Some ps"
  shows "(ps = before @ (pluginId, plugin) # after
          \<and> list_all (\<lambda>(i, p). case reducerOf p of None \<Rightarrow> True
                                 | Some h \<Rightarrow> h state action = None) before
          \<and> reducerOf plugin = Some hook
          \<and> hook state action = Some result
          \<longrightarrow> editorReducer reducerOf now state action = Inr result
              \<and> reduce reducerOf now state action = Inr (resolve state result))
       \<and> (list_all (\<lambda>(i, p). case reducerOf p of None \<Rightarrow> True
                                | Some h \<Rightarrow> h state action = None) ps
          \<longrightarrow> editorReducer reducerOf now state action = builtinCases now state action)"
proof (intro conjI impI)
  assume a: "ps = before @ (pluginId, plugin) # after
          \<and> list_all (\<lambda>(i, p). case reducerOf p of None \<Rightarrow> True
                                 | Some h \<Rightarrow> h state action = None) before
          \<and> reducerOf plugin = Some hook
          \<and> hook state action = Some result"
  then have "offerToPlugins reducerOf state action = Some result"
    using assms by (simp add: offerToPlugins_def pluginReducers_decline)
  then show "editorReducer reducerOf now state action = Inr result"
    and "reduce reducerOf now state action = Inr (resolve state result)"
    by (simp_all add: editorReducer_def reduce_def)
next
  assume "list_all (\<lambda>(i, p). case reducerOf p of None \<Rightarrow> True
                                | Some h \<Rightarrow> h state action = None) ps"
  then have "pluginReducers reducerOf (ps @ []) state action = pluginReducers reducerOf [] state action"
    by (rule pluginReducers_decline)
  then have "offerToPlugins reducerOf state action = None"
    using assms by (simp add: offerToPlugins_def)
  then show "editorReducer reducerOf now state action = builtinCases now state action"
    by (rule editorReducer_builtin)
qed


text \<open>
  Four plugins: no hook, a hook that returns \<^verbatim>\<open>null\<close>, and two hooks that
  return a state. The result is that of the third plugin, and it is not what
  the built-in case of \<open>SET_TEXT\<close> would return. With the first two plugins
  alone the built-in case runs.
\<close>

theorem plugin_hook_short_circuits_witness:
  "editorReducer exampleReducerOf 0 pluggedState (SET_TEXT ''q'')
     = Inr (NewState (pluggedState\<lparr>text := ''xx''\<rparr>))
   \<and> reduce exampleReducerOf 0 pluggedState (SET_TEXT ''q'') = Inr (pluggedState\<lparr>text := ''xx''\<rparr>)
   \<and> builtinCases 0 pluggedState (SET_TEXT ''q'') \<noteq> Inr (NewState (pluggedState\<lparr>text := ''xx''\<rparr>))
   \<and> editorReducer exampleReducerOf 0 (pluggedState\<lparr>plugins := Some [(''a'', 0), (''b'', 1)]\<rparr>)
         (SET_TEXT ''q'')
       = builtinCases 0 (pluggedState\<lparr>plugins := Some [(''a'', 0), (''b'', 1)]\<rparr>) (SET_TEXT ''q'')"
proof -
  have p: "plugins pluggedState = Some [(''a'', 0), (''b'', 1), (''c'', 2), (''d'', 3)]"
    by (simp add: pluggedState_def)
  have d: "list_all (\<lambda>(i, p). case exampleReducerOf p of None \<Rightarrow> True
                                | Some h \<Rightarrow> h s (SET_TEXT ''q'') = None)
             [(''a'', 0), (''b'', 1)]" for s
    by (simp add: exampleReducerOf_def)
  have r: "exampleReducerOf 2 = Some (\<lambda>state action. Some (NewState (state\<lparr>text := ''xx''\<rparr>)))"
    by (simp add: exampleReducerOf_def eval_nat_numeral)
  have b: "builtinCases 0 pluggedState (SET_TEXT ''q'') \<noteq> Inr (NewState (pluggedState\<lparr>text := ''xx''\<rparr>))"
    by (simp add: setText_def pluggedState_def selectedAbc_def initialState_def recordChange_def
        merge_def noChanges_def)
  have first: "editorReducer exampleReducerOf 0 pluggedState (SET_TEXT ''q'')
                 = Inr (NewState (pluggedState\<lparr>text := ''xx''\<rparr>))
               \<and> reduce exampleReducerOf 0 pluggedState (SET_TEXT ''q'')
                 = Inr (pluggedState\<lparr>text := ''xx''\<rparr>)"
    using plugin_hook_short_circuits[where state = pluggedState
        and ps = "[(''a'', 0), (''b'', 1), (''c'', 2), (''d'', 3)]"
        and before = "[(''a'', 0), (''b'', 1)]" and pluginId = "''c''" and plugin = 2
        and after = "[(''d'', 3)]" and reducerOf = exampleReducerOf and action = "SET_TEXT ''q''"
        and hook = "\<lambda>state action. Some (NewState (state\<lparr>text := ''xx''\<rparr>))"
        and result = "NewState (pluggedState\<lparr>text := ''xx''\<rparr>)" and now = 0] p d r
    by (simp add: resolve_def)
  have p2: "plugins (pluggedState\<lparr>plugins := Some [(''a'', 0), (''b'', 1)]\<rparr>)
              = Some [(''a'', 0), (''b'', 1)]"
    by simp
  have second: "editorReducer exampleReducerOf 0 (pluggedState\<lparr>plugins := Some [(''a'', 0), (''b'', 1)]\<rparr>)
         (SET_TEXT ''q'')
       = builtinCases 0 (pluggedState\<lparr>plugins := Some [(''a'', 0), (''b'', 1)]\<rparr>) (SET_TEXT ''q'')"
    using plugin_hook_short_circuits[where state = "pluggedState\<lparr>plugins := Some [(''a'', 0), (''b'', 1)]\<rparr>"
        and ps = "[(''a'', 0), (''b'', 1)]" and reducerOf = exampleReducerOf
        and action = "SET_TEXT ''q''" and now = 0] p2 d
    by blast
  from first b second show ?thesis by blast
qed


subsection \<open>C9: unknown actions\<close>

text \<open>
  Claim C9, as amended. For an action whose type is none of the known ones,
  and which no reducer hook of the plugins claims, the reducer does not throw
  and returns the same state object.
\<close>

theorem unknown_action_ignored:
  assumes "ty \<notin> set knownTypes"
    and "offerToPlugins reducerOf state (OTHER ty) = None"
  shows "editorReducer reducerOf now state (OTHER ty) = Inr SameState
         \<and> reduce reducerOf now state (OTHER ty) = Inr state"
  using assms by (simp add: editorReducer_def reduce_def resolve_def)


theorem unknown_action_ignored_witness:
  "''CUSTOM'' \<notin> set knownTypes
   \<and> editorReducer noHooks 0 typedState (OTHER ''CUSTOM'') = Inr SameState
   \<and> reduce noHooks 0 typedState (OTHER ''CUSTOM'') = Inr typedState"
proof -
  have k: "''CUSTOM'' \<notin> set knownTypes" by (simp add: knownTypes_def)
  from unknown_action_ignored[OF k noHooks_offer, of 0 typedState] k show ?thesis by simp
qed


text \<open>
  Claim C9 as stated (for every state) fails: a reducer hook of the plugins
  that answers the unknown action replaces the state.
\<close>

theorem unknown_action_claimed_by_hook:
  "''CUSTOM'' \<notin> set knownTypes
   \<and> editorReducer exampleReducerOf 0 pluggedState (OTHER ''CUSTOM'')
       = Inr (NewState (pluggedState\<lparr>text := ''xx''\<rparr>))
   \<and> editorReducer exampleReducerOf 0 pluggedState (OTHER ''CUSTOM'') \<noteq> Inr SameState
   \<and> text (pluggedState\<lparr>text := ''xx''\<rparr>) \<noteq> text pluggedState"
  by (simp add: knownTypes_def editorReducer_def offerToPlugins_def pluggedState_def
      exampleReducerOf_def selectedAbc_def initialState_def eval_nat_numeral)


text \<open>
  For every action with a payload of its declared type (the actions of
  \<open>EditorAction\<close>): the reducer does not throw when the history is absent
  or its offset indexes the stack (the hooks of the plugins are taken not to
  throw). An action object of a known type without its payload is not an
  action of the model.
\<close>

theorem reducer_does_not_throw:
  "(case history state of
      None \<Rightarrow> True
    | Some h \<Rightarrow> 0 \<le> offset h \<and> offset h < int (length (stack h)))
   \<Longrightarrow> \<exists>r. editorReducer reducerOf now state action = Inr r"
proof -
  assume a: "case history state of None \<Rightarrow> True
             | Some h \<Rightarrow> 0 \<le> offset h \<and> offset h < int (length (stack h))"
  have u: "\<exists>r. undo state = Inr r"
  proof (cases "history state")
    case None
    then show ?thesis by (simp add: undo_def)
  next
    case (Some h)
    with a have "0 \<le> offset h" "offset h < int (length (stack h))" by simp_all
    with Some have "undo state \<noteq> Inl TypeError" by (rule undo_total)
    then show ?thesis by (cases "undo state") (auto intro: error.exhaust)
  qed
  have r: "\<exists>r. redo state = Inr r"
  proof (cases "history state")
    case None
    then show ?thesis by (simp add: redo_def)
  next
    case (Some h)
    with a have "0 \<le> offset h" "offset h < int (length (stack h))" by simp_all
    with Some have "redo state \<noteq> Inl TypeError" by (rule redo_total)
    then show ?thesis by (cases "redo state") (auto intro: error.exhaust)
  qed
  have "\<exists>r. builtinCases now state action = Inr r"
    using u r by (cases action) simp_all
  then show ?thesis
    by (cases "offerToPlugins reducerOf state action") (simp_all add: editorReducer_def)
qed


theorem reducer_does_not_throw_witness:
  "\<exists>r. editorReducer noHooks 0 typedState UNDO = Inr r"
  using reducer_does_not_throw[of typedState noHooks 0 UNDO]
  by (simp add: typedState_def)


text \<open>
  The offset must index the stack for that: with an offset beyond the stack,
  \<open>UNDO\<close> reads a field of \<^verbatim>\<open>undefined\<close>.
\<close>

theorem undo_throws_on_offset_beyond_stack:
  "editorReducer noHooks 0 (typedState\<lparr>history := Some \<lparr>stack = [], offset = 3\<rparr>\<rparr>) UNDO
     = Inl TypeError"
  by (simp add: editorReducer_builtin noHooks_offer undo_def js_index_def)


subsection \<open>C10: SET_SELECTION without a direction\<close>

text \<open>
  Claim C10, as amended. Let the selection direction of the state be
  \<open>none\<close> and no reducer hook of the plugins claim the action.
  \<open>SET_SELECTION\<close> with the selection bounds of the state and no direction
  is not stopped by the duplicate check: the reducer returns the new state
  that \<open>recordChange\<close> builds, with text, selection start, selection end and
  selection direction as they were. If the history is present and its offset
  indexes the stack, the redo entries after the offset are dropped and the
  stack is trimmed to the limit; then, when the action is reduced at least
  200 ms after the record at the offset, a record with the unchanged text and
  selection is pushed and the offset moves to it (the stack grows by one when
  the offset was the last index and the stack held at most
  \<open>HISTORY_LIMIT\<close> records); when it is reduced less than 200 ms after that
  record, the record is replaced by one with the unchanged text and selection
  and its old timestamp, and the stack does not grow.
\<close>

theorem unchanged_selection_without_direction_is_recorded:
  assumes "selectionDirection state = NONE"
    and "offerToPlugins reducerOf state
           (SET_SELECTION (selectionStart state) (selectionEnd state) None) = None"
  shows "\<exists>s'. editorReducer reducerOf now state
                (SET_SELECTION (selectionStart state) (selectionEnd state) None)
              = Inr (NewState s')
           \<and> s' = recordChange now state
                  (noChanges\<lparr>changedSelectionStart := Some (selectionStart state),
                              changedSelectionEnd := Some (selectionEnd state),
                              changedSelectionDirection := Some NONE\<rparr>)
           \<and> text s' = text state \<and> selectionStart s' = selectionStart state
           \<and> selectionEnd s' = selectionEnd state
           \<and> selectionDirection s' = selectionDirection state
           \<and> (history state = Some h \<and> 0 \<le> offset h \<and> offset h < int (length (stack h))
                \<longrightarrow> (\<exists>h'. history s' = Some h'
                       \<and> (HISTORY_TIME_GAP \<le> now - timestamp (stack h ! nat (offset h))
                            \<longrightarrow> stack h' =
                                  drop (Suc (nat (offset h)) - HISTORY_LIMIT)
                                    (take (Suc (nat (offset h))) (stack h))
                                    @ [\<lparr>text = text state, selectionStart = selectionStart state,
                                         selectionEnd = selectionEnd state,
                                         selectionDirection = NONE, timestamp = now\<rparr>]
                                \<and> offset h' = min (offset h) (int HISTORY_LIMIT - 1) + 1
                                \<and> (offset h = int (length (stack h)) - 1
                                     \<and> length (stack h) \<le> HISTORY_LIMIT
                                    \<longrightarrow> length (stack h') = length (stack h) + 1))
                       \<and> (now - timestamp (stack h ! nat (offset h)) < HISTORY_TIME_GAP
                            \<longrightarrow> stack h' =
                                  (drop (Suc (nat (offset h)) - HISTORY_LIMIT)
                                     (take (Suc (nat (offset h))) (stack h)))
                                    [nat (min (offset h) (int HISTORY_LIMIT - 1)) :=
                                       \<lparr>text = text state, selectionStart = selectionStart state,
                                        selectionEnd = selectionEnd state,
                                        selectionDirection = NONE,
                                        timestamp = timestamp (stack h ! nat (offset h))\<rparr>]
                                \<and> offset h' = min (offset h) (int HISTORY_LIMIT - 1)
                                \<and> length (stack h') \<le> length (stack h))))"
proof -
  let ?a = "SET_SELECTION (selectionStart state) (selectionEnd state) None"
  let ?c = "noChanges\<lparr>changedSelectionStart := Some (selectionStart state),
                       changedSelectionEnd := Some (selectionEnd state),
                       changedSelectionDirection := Some NONE\<rparr>"
  let ?s = "recordChange now state ?c"
  let ?T = "drop (Suc (nat (offset h)) - HISTORY_LIMIT) (take (Suc (nat (offset h))) (stack h))"
  let ?m = "min (offset h) (int HISTORY_LIMIT - 1)"
  let ?r = "\<lparr>text = text state, selectionStart = selectionStart state,
              selectionEnd = selectionEnd state, selectionDirection = NONE, timestamp = now\<rparr>"
  let ?old = "timestamp (stack h ! nat (offset h))"
  let ?g = "\<lparr>text = text state, selectionStart = selectionStart state,
              selectionEnd = selectionEnd state, selectionDirection = NONE,
              timestamp = ?old\<rparr>"
  have red: "editorReducer reducerOf now state ?a = Inr (NewState ?s)"
    using assms(2) by (simp add: editorReducer_builtin setSelection_def)
  have fields: "text ?s = text state" "selectionStart ?s = selectionStart state"
    "selectionEnd ?s = selectionEnd state" "selectionDirection ?s = selectionDirection state"
    using assms(1) by (simp_all add: snapshot_recordChange noChanges_def)
  have rec: "newRecord now state ?c = ?r"
    by (simp add: newRecord_def noChanges_def)
  have recg: "(newRecord now state ?c)\<lparr>timestamp := ?old\<rparr> = ?g"
    unfolding rec by simp
  have hist: "history state = Some h \<and> 0 \<le> offset h \<and> offset h < int (length (stack h))
                \<longrightarrow> (\<exists>h'. history ?s = Some h'
                       \<and> (HISTORY_TIME_GAP \<le> now - ?old
                            \<longrightarrow> stack h' = ?T @ [?r] \<and> offset h' = ?m + 1
                                \<and> (offset h = int (length (stack h)) - 1
                                     \<and> length (stack h) \<le> HISTORY_LIMIT
                                    \<longrightarrow> length (stack h') = length (stack h) + 1))
                       \<and> (now - ?old < HISTORY_TIME_GAP
                            \<longrightarrow> stack h' = ?T[nat ?m := ?g] \<and> offset h' = ?m
                                \<and> length (stack h') \<le> length (stack h)))"
  proof
    assume a: "history state = Some h \<and> 0 \<le> offset h \<and> offset h < int (length (stack h))"
    then have h: "history state = Some h" and o1: "0 \<le> offset h"
      and o2: "offset h < int (length (stack h))"
      by simp_all
    let ?h' = "recordHistory now state ?c h"
    have hs: "history ?s = Some ?h'" using h by (simp add: history_recordChange)
    have push: "HISTORY_TIME_GAP \<le> now - ?old
                  \<longrightarrow> stack ?h' = ?T @ [?r] \<and> offset ?h' = ?m + 1
                      \<and> (offset h = int (length (stack h)) - 1
                           \<and> length (stack h) \<le> HISTORY_LIMIT
                          \<longrightarrow> length (stack ?h') = length (stack h) + 1)"
    proof
      assume g: "HISTORY_TIME_GAP \<le> now - ?old"
      have e: "?h' = \<lparr>stack = ?T @ [newRecord now state ?c], offset = ?m + 1\<rparr>"
        by (rule recordHistory_push[OF o1 o2 g])
      have st: "stack ?h' = ?T @ [?r]" unfolding e rec by simp
      have off: "offset ?h' = ?m + 1" unfolding e by simp
      have grow: "offset h = int (length (stack h)) - 1 \<and> length (stack h) \<le> HISTORY_LIMIT
                    \<longrightarrow> length (stack ?h') = length (stack h) + 1"
      proof
        assume b: "offset h = int (length (stack h)) - 1 \<and> length (stack h) \<le> HISTORY_LIMIT"
        then have "Suc (nat (offset h)) = length (stack h)" using o1 by linarith
        with b show "length (stack ?h') = length (stack h) + 1" unfolding st by simp
      qed
      from st off grow
      show "stack ?h' = ?T @ [?r] \<and> offset ?h' = ?m + 1
              \<and> (offset h = int (length (stack h)) - 1 \<and> length (stack h) \<le> HISTORY_LIMIT
                  \<longrightarrow> length (stack ?h') = length (stack h) + 1)"
        by blast
    qed
    have grp: "now - ?old < HISTORY_TIME_GAP
                 \<longrightarrow> stack ?h' = ?T[nat ?m := ?g] \<and> offset ?h' = ?m
                     \<and> length (stack ?h') \<le> length (stack h)"
    proof
      assume g: "now - ?old < HISTORY_TIME_GAP"
      have e: "?h' = \<lparr>stack = ?T[nat ?m := (newRecord now state ?c)\<lparr>timestamp := ?old\<rparr>],
                       offset = ?m\<rparr>"
        by (rule recordHistory_group[OF o1 o2 g])
      have st: "stack ?h' = ?T[nat ?m := ?g]" unfolding e recg by simp
      have off: "offset ?h' = ?m" unfolding e by simp
      have "length (stack ?h') = length ?T" unfolding st by simp
      then have le: "length (stack ?h') \<le> length (stack h)"
        using trimmed_le[OF o1 o2] by simp
      from st off le
      show "stack ?h' = ?T[nat ?m := ?g] \<and> offset ?h' = ?m
              \<and> length (stack ?h') \<le> length (stack h)"
        by blast
    qed
    from hs push grp
    show "\<exists>h'. history ?s = Some h'
            \<and> (HISTORY_TIME_GAP \<le> now - ?old
                 \<longrightarrow> stack h' = ?T @ [?r] \<and> offset h' = ?m + 1
                     \<and> (offset h = int (length (stack h)) - 1
                          \<and> length (stack h) \<le> HISTORY_LIMIT
                         \<longrightarrow> length (stack h') = length (stack h) + 1))
            \<and> (now - ?old < HISTORY_TIME_GAP
                 \<longrightarrow> stack h' = ?T[nat ?m := ?g] \<and> offset h' = ?m
                     \<and> length (stack h') \<le> length (stack h))"
      by blast
  qed
  from red fields hist show ?thesis by blast
qed


text \<open>
  The theorem at a state with two records (timestamps 0 and 1000, the offset
  at the second): at 5000 a third record is pushed; at 1100 the second record
  is replaced and keeps the timestamp 1000.
\<close>

theorem unchanged_selection_without_direction_is_recorded_witness:
  "selectionDirection typedState = NONE
   \<and> (\<exists>s' h'. editorReducer noHooks 5000 typedState (SET_SELECTION 1 1 None) = Inr (NewState s')
         \<and> text s' = ''a'' \<and> selectionStart s' = 1 \<and> selectionEnd s' = 1
         \<and> selectionDirection s' = NONE
         \<and> history s' = Some h' \<and> length (stack h') = 3 \<and> offset h' = 2)
   \<and> (\<exists>s' h'. editorReducer noHooks 1100 typedState (SET_SELECTION 1 1 None) = Inr (NewState s')
         \<and> text s' = ''a'' \<and> selectionStart s' = 1 \<and> selectionEnd s' = 1
         \<and> selectionDirection s' = NONE
         \<and> history s' = Some h' \<and> length (stack h') = 2 \<and> offset h' = 1
         \<and> js_index (stack h') 1 =
               Some \<lparr>text = ''a'', selectionStart = 1, selectionEnd = 1,
                     selectionDirection = NONE, timestamp = 1000\<rparr>)"
proof -
  let ?h = "\<lparr>stack = [\<lparr>text = '''', selectionStart = 0, selectionEnd = 0,
                         selectionDirection = NONE, timestamp = 0\<rparr>,
                       \<lparr>text = ''a'', selectionStart = 1, selectionEnd = 1,
                         selectionDirection = NONE, timestamp = 1000\<rparr>],
              offset = 1\<rparr>"
  have h: "history typedState = Some ?h" by (simp add: typedState_def)
  have f: "text typedState = ''a''" "selectionStart typedState = 1" "selectionEnd typedState = 1"
    "selectionDirection typedState = NONE"
    by (simp_all add: typedState_def)
  have o: "0 \<le> offset ?h \<and> offset ?h < int (length (stack ?h))" by simp
  have g1: "HISTORY_TIME_GAP \<le> 5000 - timestamp (stack ?h ! nat (offset ?h))"
    by (simp add: HISTORY_TIME_GAP_def)
  have g2: "1100 - timestamp (stack ?h ! nat (offset ?h)) < HISTORY_TIME_GAP"
    by (simp add: HISTORY_TIME_GAP_def)
  from unchanged_selection_without_direction_is_recorded[OF f(4) noHooks_offer, of 5000 ?h] h o g1
  obtain s1 h1 where
    "editorReducer noHooks 5000 typedState
       (SET_SELECTION (selectionStart typedState) (selectionEnd typedState) None) = Inr (NewState s1)"
    "text s1 = text typedState" "selectionStart s1 = selectionStart typedState"
    "selectionEnd s1 = selectionEnd typedState" "selectionDirection s1 = selectionDirection typedState"
    "history s1 = Some h1"
    "stack h1 = drop (Suc (nat (offset ?h)) - HISTORY_LIMIT) (take (Suc (nat (offset ?h))) (stack ?h))
                 @ [\<lparr>text = text typedState, selectionStart = selectionStart typedState,
                      selectionEnd = selectionEnd typedState, selectionDirection = NONE,
                      timestamp = 5000\<rparr>]"
    "offset h1 = min (offset ?h) (int HISTORY_LIMIT - 1) + 1"
    by blast
  then have p1: "editorReducer noHooks 5000 typedState (SET_SELECTION 1 1 None) = Inr (NewState s1)
         \<and> text s1 = ''a'' \<and> selectionStart s1 = 1 \<and> selectionEnd s1 = 1
         \<and> selectionDirection s1 = NONE
         \<and> history s1 = Some h1 \<and> length (stack h1) = 3 \<and> offset h1 = 2"
    by (simp add: f HISTORY_LIMIT_def)
  from unchanged_selection_without_direction_is_recorded[OF f(4) noHooks_offer, of 1100 ?h] h o g2
  obtain s2 h2 where
    "editorReducer noHooks 1100 typedState
       (SET_SELECTION (selectionStart typedState) (selectionEnd typedState) None) = Inr (NewState s2)"
    "text s2 = text typedState" "selectionStart s2 = selectionStart typedState"
    "selectionEnd s2 = selectionEnd typedState" "selectionDirection s2 = selectionDirection typedState"
    "history s2 = Some h2"
    "stack h2 = (drop (Suc (nat (offset ?h)) - HISTORY_LIMIT) (take (Suc (nat (offset ?h))) (stack ?h)))
                 [nat (min (offset ?h) (int HISTORY_LIMIT - 1)) :=
                    \<lparr>text = text typedState, selectionStart = selectionStart typedState,
                     selectionEnd = selectionEnd typedState, selectionDirection = NONE,
                     timestamp = timestamp (stack ?h ! nat (offset ?h))\<rparr>]"
    "offset h2 = min (offset ?h) (int HISTORY_LIMIT - 1)"
    by blast
  then have p2: "editorReducer noHooks 1100 typedState (SET_SELECTION 1 1 None) = Inr (NewState s2)
         \<and> text s2 = ''a'' \<and> selectionStart s2 = 1 \<and> selectionEnd s2 = 1
         \<and> selectionDirection s2 = NONE
         \<and> history s2 = Some h2 \<and> length (stack h2) = 2 \<and> offset h2 = 1
         \<and> js_index (stack h2) 1 =
               Some \<lparr>text = ''a'', selectionStart = 1, selectionEnd = 1,
                     selectionDirection = NONE, timestamp = 1000\<rparr>"
    by (simp add: f HISTORY_LIMIT_def js_index_def)
  from f(4) p1 p2 show ?thesis by blast
qed


text \<open>
  Claim C10 as stated (for every state with a history) fails: after two undos
  the stack holds three records and the offset is 0; the action, reduced more
  than 200 ms after every record, drops the two redo entries and pushes one
  record, so the stack holds two records instead of four.
\<close>

theorem unchanged_selection_after_undo_shrinks_stack:
  "\<exists>h0 s h. history undoneState = Some h0 \<and> length (stack h0) = 3
      \<and> selectionDirection undoneState = NONE
      \<and> list_all (\<lambda>r. HISTORY_TIME_GAP \<le> 5000 - timestamp r) (stack h0)
      \<and> reduce noHooks 5000 undoneState
           (SET_SELECTION (selectionStart undoneState) (selectionEnd undoneState) None) = Inr s
      \<and> history s = Some h \<and> length (stack h) = 2"
  by (simp add: undoneState_def reduce_def editorReducer_builtin noHooks_offer setSelection_def
      resolve_def record_defs)

end
